theory Spec2Isabelle
  imports Main "HOL-Library.Word"
begin

unbundle bit_operations_syntax

section \<open>The per-session transaction cache (class \<open>binlog_trx_data\<close>, sql/log.cc)\<close>

type_synonym byte = "8 word"
type_synonym my_off_t = "64 word"

text \<open>\<open>#define MY_OFF_T_UNDEF (~(my_off_t)0UL)\<close>\<close>

definition MY_OFF_T_UNDEF :: my_off_t where
  "MY_OFF_T_UNDEF = NOT 0"

text \<open>
  \<open>IO_CACHE\<close> is declared in mysys, outside these sources. The model keeps what log.cc
  reads and writes of it: the backing bytes by offset (\<open>store\<close>), the current position
  returned by \<open>my_b_tell\<close> (\<open>pos\<close>) and the \<open>end_of_file\<close> limit.
\<close>

record IO_CACHE =
  store :: "nat \<Rightarrow> byte"
  pos :: my_off_t
  end_of_file :: my_off_t

definition my_b_tell :: "IO_CACHE \<Rightarrow> my_off_t" where
  "my_b_tell c = pos c"

text \<open>
  Modelled from the spec: \<open>reinit_io_cache(&c, WRITE_CACHE, p, 0, 0)\<close> of mysys, which
  "sets the buffer write position to \<open>p\<close>"; the stored bytes stay as they are.
\<close>

definition reinit_io_cache_write :: "my_off_t \<Rightarrow> IO_CACHE \<Rightarrow> IO_CACHE" where
  "reinit_io_cache_write p c = c\<lparr>pos := p\<rparr>"

text \<open>
  Modelled from the spec: \<open>my_b_write\<close> of mysys on a write cache, which stores the
  bytes at the write position and advances it, and "a write that exceeds the configured
  maximum fails with cache-full" (\<open>None\<close>); the maximum is \<open>end_of_file\<close>.
\<close>

definition my_b_write_cache :: "byte list \<Rightarrow> IO_CACHE \<Rightarrow> IO_CACHE option" where
  "my_b_write_cache bs c =
     (if unat (pos c) + length bs > unat (end_of_file c) then None
      else Some (c\<lparr>store := (\<lambda>i. if unat (pos c) \<le> i \<and> i < unat (pos c) + length bs
                                   then bs ! (i - unat (pos c)) else store c i),
                  pos := pos c + of_nat (length bs)\<rparr>))"

text \<open>The bytes a reader of the cache gets: those before the write position.\<close>

definition cache_bytes :: "IO_CACHE \<Rightarrow> byte list" where
  "cache_bytes c = map (store c) [0 ..< unat (pos c)]"

text \<open>
  Of a \<open>Rows_log_event\<close>: the bytes it serialises to and its \<open>cache_stmt\<close> flag.
\<close>

record Rows_log_event =
  rows_bytes :: "byte list"
  rows_cache_stmt :: bool

record binlog_trx_data =
  trans_log :: IO_CACHE
  at_least_one_stmt_committed :: bool
  incident :: bool
  m_pending :: "Rows_log_event option"
  before_stmt_pos :: my_off_t

definition pending :: "binlog_trx_data \<Rightarrow> Rows_log_event option" where
  "pending d = m_pending d"

definition set_pending :: "Rows_log_event option \<Rightarrow> binlog_trx_data \<Rightarrow> binlog_trx_data" where
  "set_pending p d = d\<lparr>m_pending := p\<rparr>"

definition position :: "binlog_trx_data \<Rightarrow> my_off_t" where
  "position d = my_b_tell (trans_log d)"

definition empty_cache :: "binlog_trx_data \<Rightarrow> bool" where
  "empty_cache d \<longleftrightarrow> pending d = None \<and> my_b_tell (trans_log d) = 0"

text \<open>
  \<open>binlog_trx_data::truncate(pos)\<close>; \<open>mx\<close> is the global \<open>max_binlog_cache_size\<close>.
  Deleting the pending event and \<open>set_pending(0)\<close> leave no pending event.
\<close>

definition truncate_cache :: "my_off_t \<Rightarrow> my_off_t \<Rightarrow> binlog_trx_data \<Rightarrow> binlog_trx_data" where
  "truncate_cache mx p d =
     (let d1 = set_pending None d;
          d2 = d1\<lparr>trans_log := reinit_io_cache_write p (trans_log d1)\<rparr>;
          d3 = d2\<lparr>trans_log := (trans_log d2)\<lparr>end_of_file := mx\<rparr>\<rparr>;
          d4 = (if p < before_stmt_pos d3 then d3\<lparr>before_stmt_pos := MY_OFF_T_UNDEF\<rparr> else d3)
      in d4\<lparr>at_least_one_stmt_committed := (p > 0)\<rparr>)"

text \<open>\<open>binlog_trx_data::reset()\<close>\<close>

definition reset :: "my_off_t \<Rightarrow> binlog_trx_data \<Rightarrow> binlog_trx_data" where
  "reset mx d =
     (let d1 = (if \<not> empty_cache d then truncate_cache mx 0 d else d);
          d2 = d1\<lparr>before_stmt_pos := MY_OFF_T_UNDEF\<rparr>;
          d3 = d2\<lparr>incident := False\<rparr>
      in d3\<lparr>trans_log := (trans_log d3)\<lparr>end_of_file := mx\<rparr>\<rparr>)"

definition set_incident :: "binlog_trx_data \<Rightarrow> binlog_trx_data" where
  "set_incident d = d\<lparr>incident := True\<rparr>"

definition has_incident :: "binlog_trx_data \<Rightarrow> bool" where
  "has_incident d = incident d"

section \<open>The session, the log object and the calls that leave log.cc\<close>

text \<open>
  The error numbers that \<open>check_write_error\<close> tells apart; every other value of
  \<open>thd->main_da.sql_errno()\<close> is \<open>ER_OTHER\<close>.
\<close>

datatype sql_errno =
  ER_TRANS_CACHE_FULL | ER_ERROR_ON_WRITE | ER_BINLOG_LOGGING_IMPOSSIBLE | ER_OTHER nat

text \<open>
  The fields of \<open>THD\<close> that the modelled functions read or write. The three
  \<open>OPTION_\<close> fields are the bits of \<open>thd->options\<close> that are tested.
\<close>

record THD =
  trx_data :: binlog_trx_data
  is_error :: bool
  main_da_sql_errno :: sql_errno
  all_modified_non_trans_table :: bool
  stmt_modified_non_trans_table :: bool
  OPTION_KEEP_LOG :: bool
  OPTION_BEGIN :: bool
  OPTION_NOT_AUTOCOMMIT :: bool
  current_stmt_binlog_row_based :: bool
  lex_ident :: string
  ticket :: "64 word"
  do_union :: bool
  OPTION_BIN_LOG :: bool

text \<open>The fields of \<open>MYSQL_BIN_LOG\<close> that the modelled functions read or write.\<close>

record MYSQL_BIN_LOG =
  log_is_open :: bool
  write_error :: bool
  prepared_xids :: "64 word"
  stop_new_xids :: bool
  group_commit_allowed :: bool
  force_binlog_order :: bool
  current_ticket :: "64 word"
  next_ticket :: "64 word"

datatype Log_event = Query_log_event string | Xid_log_event "64 word"

text \<open>
  What a call does outside the modelled state is recorded, in order, as a list of
  actions: the I/O on the log file, the condition broadcasts, and the marker
  \<open>Set_incident\<close> for the statement \<open>trx_data->set_incident()\<close> of \<open>binlog_rollback\<close>.
\<close>

datatype action =
    Set_incident
  | Write_incident
  | Write_group "byte list" Log_event bool
  | Bin_log_write Log_event
  | Write_rows "byte list"
  | Rotate_and_purge
  | Broadcast_COND_prep_xids

text \<open>
  The results of the calls whose code is outside log.cc or is I/O: whether flushing the
  pending rows event fails, whether a write or sync of the log file fails, whether
  \<open>write_incident\<close> fails, whether \<open>rotate_and_purge\<close> fails, whether \<open>my_errno\<close> is
  \<open>EFBIG\<close> after a failed write, and what the error handler of the server, which
  \<open>my_error\<close> and \<open>my_message\<close> call, makes of the diagnostics area of the session (whether
  it holds an error, and which) when it is given an error number.
\<close>

record io_env =
  flush_pending_fails :: bool
  log_io_fails :: bool
  write_incident_fails :: bool
  rotate_fails :: bool
  my_errno_EFBIG :: bool
  error_hook :: "sql_errno \<Rightarrow> bool \<times> sql_errno \<Rightarrow> bool \<times> sql_errno"

definition ending_trans :: "THD \<Rightarrow> bool \<Rightarrow> bool" where
  "ending_trans thd all \<longleftrightarrow>
     all \<or> (\<not> all \<and> \<not> (OPTION_BEGIN thd \<or> OPTION_NOT_AUTOCOMMIT thd))"

definition trans_has_updated_non_trans_table :: "THD \<Rightarrow> bool" where
  "trans_has_updated_non_trans_table thd \<longleftrightarrow>
     all_modified_non_trans_table thd \<or> stmt_modified_non_trans_table thd"

definition trans_has_no_stmt_committed :: "THD \<Rightarrow> bool \<Rightarrow> bool" where
  "trans_has_no_stmt_committed thd all \<longleftrightarrow>
     \<not> all \<and> \<not> at_least_one_stmt_committed (trx_data thd)"

definition stmt_has_updated_non_trans_table :: "THD \<Rightarrow> bool" where
  "stmt_has_updated_non_trans_table thd \<longleftrightarrow> stmt_modified_non_trans_table thd"

text \<open>\<open>MYSQL_BIN_LOG::check_write_error\<close>\<close>

definition check_write_error :: "THD \<Rightarrow> bool" where
  "check_write_error thd =
     (if \<not> is_error thd then False
      else (case main_da_sql_errno thd of
              ER_TRANS_CACHE_FULL \<Rightarrow> True
            | ER_ERROR_ON_WRITE \<Rightarrow> True
            | ER_BINLOG_LOGGING_IMPOSSIBLE \<Rightarrow> True
            | ER_OTHER _ \<Rightarrow> False))"

text \<open>\<open>my_error\<close> and \<open>my_message\<close> on the session \<open>thd\<close>.\<close>

definition my_error :: "io_env \<Rightarrow> sql_errno \<Rightarrow> THD \<Rightarrow> THD" where
  "my_error env e thd =
     (case error_hook env e (is_error thd, main_da_sql_errno thd) of
        (b, c) \<Rightarrow> thd\<lparr>is_error := b, main_da_sql_errno := c\<rparr>)"

text \<open>
  \<open>MYSQL_BIN_LOG::set_write_error\<close>: \<open>write_error\<close> is set, and an error is raised unless
  the session already holds one that \<open>check_write_error\<close> accepts.
\<close>

definition set_write_error :: "io_env \<Rightarrow> MYSQL_BIN_LOG \<Rightarrow> THD \<Rightarrow> MYSQL_BIN_LOG \<times> THD" where
  "set_write_error env bl thd =
     (let bl' = bl\<lparr>write_error := True\<rparr>
      in if check_write_error thd then (bl', thd)
         else if my_errno_EFBIG env then (bl', my_error env ER_TRANS_CACHE_FULL thd)
         else (bl', my_error env ER_ERROR_ON_WRITE thd))"

text \<open>
  \<open>MYSQL_BIN_LOG::write(THD *, IO_CACHE *, Log_event *, bool incident, ...)\<close>: the result
  (\<open>True\<close> is the error return 1), the log object and the actions. Every failing write or
  sync jumps to the label \<open>err\<close>; \<open>log_io_fails\<close> stands for any of them. The wait on
  \<open>stop_new_xids\<close> at the head of the function changes no field.
\<close>

definition bin_log_write_cache ::
  "io_env \<Rightarrow> MYSQL_BIN_LOG \<Rightarrow> IO_CACHE \<Rightarrow> Log_event \<Rightarrow> bool
     \<Rightarrow> bool \<times> MYSQL_BIN_LOG \<times> action list" where
  "bin_log_write_cache env bl cache commit_event inc =
     (if log_is_open bl then
        (if my_b_tell cache > 0 \<and> log_io_fails env
         then (True, bl\<lparr>write_error := True\<rparr>, [])
         else
           (let acts = (if my_b_tell cache > 0
                        then [Write_group (cache_bytes cache) commit_event inc] else [])
            in (case commit_event of
                  Xid_log_event x \<Rightarrow>
                    (False, bl\<lparr>prepared_xids := prepared_xids bl + 1\<rparr>, acts)
                | Query_log_event q \<Rightarrow>
                    (if rotate_fails env
                     then (True, bl\<lparr>write_error := True\<rparr>, acts @ [Rotate_and_purge])
                     else (False, bl, acts @ [Rotate_and_purge])))))
      else (False, bl, []))"

text \<open>
  \<open>MYSQL_BIN_LOG::flush_and_set_pending_rows_event(thd, event)\<close>. A pending rows event
  goes to the transaction cache when it asks for it or the cache is not empty, and to the
  log file otherwise. When \<open>pending->write(file)\<close> fails the function calls
  \<open>set_write_error\<close> and returns 1 with the event still pending; after the write the event
  is deleted, the log file is synced and rotated if it was the file written, and \<open>event\<close>
  is the pending event. The result is the return value, the log object, the session and
  the actions.
\<close>

definition flush_and_set_pending_rows_event ::
  "io_env \<Rightarrow> MYSQL_BIN_LOG \<Rightarrow> THD \<Rightarrow> Rows_log_event option
     \<Rightarrow> int \<times> MYSQL_BIN_LOG \<times> THD \<times> action list" where
  "flush_and_set_pending_rows_event env bl thd event =
     (let d = trx_data thd in
      case pending d of
        None \<Rightarrow> (0, bl, thd\<lparr>trx_data := set_pending event d\<rparr>, [])
      | Some p \<Rightarrow>
          (if rows_cache_stmt p \<or> my_b_tell (trans_log d) \<noteq> 0 then
             (if flush_pending_fails env
              then (case set_write_error env bl thd of (bl', thd') \<Rightarrow> (1, bl', thd', []))
              else (case my_b_write_cache (rows_bytes p) (trans_log d) of
                      None \<Rightarrow>
                        (case set_write_error env bl thd of (bl', thd') \<Rightarrow> (1, bl', thd', []))
                    | Some c \<Rightarrow>
                        (0, bl, thd\<lparr>trx_data := set_pending event (d\<lparr>trans_log := c\<rparr>)\<rparr>, [])))
           else
             (if flush_pending_fails env
              then (case set_write_error env bl thd of (bl', thd') \<Rightarrow> (1, bl', thd', []))
              else if log_io_fails env
              then (1, bl, thd\<lparr>trx_data := set_pending event d\<rparr>, [Write_rows (rows_bytes p)])
              else ((if rotate_fails env then 1 else 0), bl,
                    thd\<lparr>trx_data := set_pending event d\<rparr>,
                    [Write_rows (rows_bytes p), Rotate_and_purge]))))"

text \<open>
  Modelled from the spec: \<open>THD::binlog_flush_pending_rows_event\<close> of sql_class.cc, which is
  not among the sources; \<open>append\<close> is "flushing any buffered \<open>pending_rows_event\<close> first",
  here by \<open>flush_and_set_pending_rows_event(thd, 0)\<close>.
\<close>

definition binlog_flush_pending_rows_event ::
  "io_env \<Rightarrow> MYSQL_BIN_LOG \<Rightarrow> THD \<Rightarrow> int \<times> MYSQL_BIN_LOG \<times> THD \<times> action list" where
  "binlog_flush_pending_rows_event env bl thd =
     flush_and_set_pending_rows_event env bl thd None"

text \<open>
  The bytes that the flush of the pending rows event appends to the transaction cache:
  those of the event, when it goes to the cache.
\<close>

definition flushed_rows :: "binlog_trx_data \<Rightarrow> byte list" where
  "flushed_rows d =
     (case pending d of
        None \<Rightarrow> []
      | Some p \<Rightarrow>
          (if rows_cache_stmt p \<or> my_b_tell (trans_log d) \<noteq> 0 then rows_bytes p else []))"

text \<open>\<open>MYSQL_BIN_LOG::remove_pending_rows_event\<close>\<close>

definition remove_pending_rows_event :: "binlog_trx_data \<Rightarrow> binlog_trx_data" where
  "remove_pending_rows_event d =
     (case pending d of None \<Rightarrow> d | Some ev \<Rightarrow> set_pending None d)"

text \<open>
  \<open>binlog_end_trans(thd, trx_data, end_ev, all, ...)\<close>; \<open>mx\<close> is
  \<open>max_binlog_cache_size\<close>. The result is the return value, the log object, the session
  and the actions.
\<close>

definition binlog_end_trans ::
  "io_env \<Rightarrow> my_off_t \<Rightarrow> MYSQL_BIN_LOG \<Rightarrow> THD \<Rightarrow> Log_event option \<Rightarrow> bool
     \<Rightarrow> int \<times> MYSQL_BIN_LOG \<times> THD \<times> action list" where
  "binlog_end_trans env mx bl thd end_ev all =
     (case end_ev of
        Some ev \<Rightarrow>
          (case binlog_flush_pending_rows_event env bl thd of
             (f, blf, thdf, facts) \<Rightarrow>
               (if f \<noteq> 0 then (1, blf, thdf, facts)
                else
                  (let d = trx_data thdf in
                   case bin_log_write_cache env blf (trans_log d) ev (has_incident d) of
                     (e, bl', acts) \<Rightarrow>
                       ((if e then 1 else 0), bl', thdf\<lparr>trx_data := reset mx d\<rparr>,
                        facts @ acts))))
      | None \<Rightarrow>
          (let d = remove_pending_rows_event (trx_data thd) in
           if all \<or> \<not> (OPTION_BEGIN thd \<or> OPTION_NOT_AUTOCOMMIT thd) then
             (if has_incident d
              then ((if write_incident_fails env then 1 else 0), bl,
                    thd\<lparr>trx_data := reset mx d\<rparr>, [Write_incident])
              else (0, bl, thd\<lparr>trx_data := reset mx d\<rparr>, []))
           else (0, bl, thd\<lparr>trx_data := truncate_cache mx (before_stmt_pos d) d\<rparr>, [])))"

text \<open>
  \<open>binlog_rollback(hton, thd, all)\<close>. Its last statement clears \<open>before_stmt_pos\<close> for a
  statement rollback.
\<close>

definition binlog_rollback ::
  "io_env \<Rightarrow> my_off_t \<Rightarrow> MYSQL_BIN_LOG \<Rightarrow> THD \<Rightarrow> bool
     \<Rightarrow> int \<times> MYSQL_BIN_LOG \<times> THD \<times> action list" where
  "binlog_rollback env mx bl thd all =
     (if empty_cache (trx_data thd)
      then (0, bl, thd\<lparr>trx_data := reset mx (trx_data thd)\<rparr>, [])
      else
        (let (error, bl', thd', acts) =
           (if check_write_error thd then
              (let inc = (stmt_has_updated_non_trans_table thd \<or> OPTION_KEEP_LOG thd)
                           \<and> check_write_error thd;
                   thd1 = (if inc then thd\<lparr>trx_data := set_incident (trx_data thd)\<rparr> else thd);
                   (e, b, t, a) = binlog_end_trans env mx bl thd1 None all
               in (e, b, t, (if inc then [Set_incident] else []) @ a))
            else if (ending_trans thd all \<and>
                      (trans_has_updated_non_trans_table thd \<or> OPTION_KEEP_LOG thd)) \<or>
                    (trans_has_no_stmt_committed thd all \<and>
                      stmt_has_updated_non_trans_table thd \<and>
                      current_stmt_binlog_row_based thd)
            then binlog_end_trans env mx bl thd (Some (Query_log_event ''ROLLBACK'')) all
            else if ending_trans thd all \<or>
                    (\<not> OPTION_KEEP_LOG thd \<and> \<not> stmt_has_updated_non_trans_table thd)
            then binlog_end_trans env mx bl thd None all
            else (0, bl, thd, []))
         in (error, bl',
             (if \<not> all
              then thd'\<lparr>trx_data := (trx_data thd')\<lparr>before_stmt_pos := MY_OFF_T_UNDEF\<rparr>\<rparr>
              else thd'),
             acts)))"

text \<open>
  \<open>TC_LOG_BINLOG::log_xid\<close>: the transaction is ended with the XID event; the return
  value is inverted (1 is success).
\<close>

definition log_xid ::
  "io_env \<Rightarrow> my_off_t \<Rightarrow> MYSQL_BIN_LOG \<Rightarrow> THD \<Rightarrow> 64 word
     \<Rightarrow> int \<times> MYSQL_BIN_LOG \<times> THD \<times> action list" where
  "log_xid env mx bl thd xid =
     (case binlog_end_trans env mx bl thd (Some (Xid_log_event xid)) True of
        (e, bl', thd', acts) \<Rightarrow> ((if e = 0 then 1 else 0), bl', thd', acts))"

text \<open>
  \<open>TC_LOG_BINLOG::unlog\<close>: \<open>--prepared_xids\<close> on an unsigned long, the broadcast when the
  result is 0, then \<open>rotate_and_purge\<close>, whose result is returned.
\<close>

definition unlog :: "io_env \<Rightarrow> MYSQL_BIN_LOG \<Rightarrow> int \<times> MYSQL_BIN_LOG \<times> action list" where
  "unlog env bl =
     (let bl' = bl\<lparr>prepared_xids := prepared_xids bl - 1\<rparr>;
          acts = (if prepared_xids bl' = 0 then [Broadcast_COND_prep_xids] else [])
      in ((if rotate_fails env then 1 else 0), bl', acts @ [Rotate_and_purge]))"

text \<open>
  The number of times the XID record of \<open>xid\<close> is written to the log file by the actions
  \<open>acts\<close>: the groups whose commit event is that record.
\<close>

definition xid_records :: "64 word \<Rightarrow> action list \<Rightarrow> nat" where
  "xid_records xid acts =
     length (filter (\<lambda>a. case a of Write_group bs ev inc \<Rightarrow> ev = Xid_log_event xid
                           | _ \<Rightarrow> False) acts)"

section \<open>Group-commit tickets\<close>

text \<open>\<open>MYSQL_BIN_LOG::disable_group_commit\<close>\<close>

definition disable_group_commit :: "MYSQL_BIN_LOG \<Rightarrow> MYSQL_BIN_LOG" where
  "disable_group_commit bl = bl\<lparr>group_commit_allowed := False\<rparr>"

text \<open>
  \<open>MYSQL_BIN_LOG::order_for_group_commit(thd, ht)\<close>. The handlerton is \<open>None\<close> for a null
  pointer and otherwise carries the result of \<open>ht->is_ordered_commit(ht, thd)\<close>. The return
  value 0 says that the transaction is to be ordered.
\<close>

definition order_for_group_commit ::
  "MYSQL_BIN_LOG \<Rightarrow> THD \<Rightarrow> bool option \<Rightarrow> int \<times> MYSQL_BIN_LOG \<times> THD" where
  "order_for_group_commit bl thd ht =
     (if ticket thd \<noteq> 0 then (1, disable_group_commit bl, thd)
      else if \<not> group_commit_allowed bl \<or> \<not> force_binlog_order bl \<or>
              ht = None \<or> ht = Some False
      then (1, bl, thd)
      else
        (let thd' = thd\<lparr>ticket := next_ticket bl\<rparr>;
             bl' = bl\<lparr>next_ticket := next_ticket bl + 1\<rparr>
         in if ticket thd' + 1 = 0 then (1, disable_group_commit bl', thd')
            else (0, bl', thd')))"

text \<open>\<open>MYSQL_BIN_LOG::increment_group_commit_ticket\<close>\<close>

definition increment_group_commit_ticket :: "MYSQL_BIN_LOG \<Rightarrow> THD \<Rightarrow> MYSQL_BIN_LOG \<times> THD" where
  "increment_group_commit_ticket bl thd =
     (if ticket thd = 0 then (bl, thd)
      else
        (let bl1 = (if ticket thd \<noteq> current_ticket bl then disable_group_commit bl else bl);
             bl2 = bl1\<lparr>current_ticket := current_ticket bl1 + 1\<rparr>
         in (bl2, thd\<lparr>ticket := 0\<rparr>)))"

text \<open>
  One return of \<open>pthread_cond_timedwait\<close> in \<open>wait_for_group_commit_order\<close>: whether it
  timed out, whether the time waited was above \<open>group_commit_hang_disable_secs\<close>, and the
  value that \<open>current_ticket\<close> has by then.
\<close>

record wake =
  timed_out :: bool
  over_disable_secs :: bool
  ticket_now :: "64 word"

text \<open>
  The loop of \<open>wait_for_group_commit_order\<close>; \<open>None\<close> when the session is still waiting
  after the last wake-up given.
\<close>

fun wait_loop :: "MYSQL_BIN_LOG \<Rightarrow> 64 word \<Rightarrow> wake list \<Rightarrow> MYSQL_BIN_LOG option" where
  "wait_loop bl t [] =
     (if group_commit_allowed bl \<and> t > current_ticket bl then None else Some bl)"
| "wait_loop bl t (w # ws) =
     (if group_commit_allowed bl \<and> t > current_ticket bl then
        (let bl1 = bl\<lparr>current_ticket := ticket_now w\<rparr>;
             bl2 = (if timed_out w \<and> over_disable_secs w then disable_group_commit bl1 else bl1)
         in wait_loop bl2 t ws)
      else Some bl)"

definition wait_for_group_commit_order ::
  "MYSQL_BIN_LOG \<Rightarrow> THD \<Rightarrow> wake list \<Rightarrow> MYSQL_BIN_LOG option" where
  "wait_for_group_commit_order bl thd ws =
     (if ticket thd = 0 then Some (disable_group_commit bl)
      else wait_loop bl (ticket thd) ws)"

text \<open>
  The calls on the ticket state that sessions make, one after the other, and their effect
  on the log object. A wait that has not returned leaves the object as it is.
\<close>

datatype gc_call =
    Order THD "bool option"
  | Increment THD
  | Wait THD "wake list"

fun gc_step :: "MYSQL_BIN_LOG \<Rightarrow> gc_call \<Rightarrow> MYSQL_BIN_LOG" where
  "gc_step bl (Order thd ht) = fst (snd (order_for_group_commit bl thd ht))"
| "gc_step bl (Increment thd) = fst (increment_group_commit_ticket bl thd)"
| "gc_step bl (Wait thd ws) =
     (case wait_for_group_commit_order bl thd ws of None \<Rightarrow> bl | Some bl' \<Rightarrow> bl')"

definition gc_run :: "MYSQL_BIN_LOG \<Rightarrow> gc_call list \<Rightarrow> MYSQL_BIN_LOG" where
  "gc_run bl cs = foldl gc_step bl cs"

section \<open>Savepoints\<close>

text \<open>\<open>binlog_trans_log_savepos\<close>: the position of the cache is stored in \<open>*pos\<close>.\<close>

definition binlog_trans_log_savepos :: "THD \<Rightarrow> my_off_t" where
  "binlog_trans_log_savepos thd = position (trx_data thd)"

text \<open>\<open>binlog_trans_log_truncate\<close>\<close>

definition binlog_trans_log_truncate :: "my_off_t \<Rightarrow> THD \<Rightarrow> my_off_t \<Rightarrow> THD" where
  "binlog_trans_log_truncate mx thd p = thd\<lparr>trx_data := truncate_cache mx p (trx_data thd)\<rparr>"

text \<open>
  \<open>THD::binlog_start_trans_and_stmt\<close> with \<open>THD::binlog_set_stmt_begin\<close>: the position is
  saved in \<open>before_stmt_pos\<close> only if that is undefined.
\<close>

definition binlog_start_trans_and_stmt :: "binlog_trx_data \<Rightarrow> binlog_trx_data" where
  "binlog_start_trans_and_stmt d =
     (if before_stmt_pos d = MY_OFF_T_UNDEF then d\<lparr>before_stmt_pos := position d\<rparr> else d)"

text \<open>
  The calls \<open>e.write(file)\<close> on the transaction cache, one serialised event after the other;
  the first failing one stops them (\<open>True\<close>) and what was written before stays.
\<close>

fun write_events :: "byte list list \<Rightarrow> IO_CACHE \<Rightarrow> bool \<times> IO_CACHE" where
  "write_events [] c = (False, c)"
| "write_events (bs # bss) c =
     (case my_b_write_cache bs c of
        None \<Rightarrow> (True, c)
      | Some c' \<Rightarrow> write_events bss c')"

text \<open>
  \<open>MYSQL_BIN_LOG::write(Log_event *)\<close> for an event built with \<open>using_trans = TRUE\<close>, as the
  SAVEPOINT and ROLLBACK TO events are, so that \<open>get_cache_stmt()\<close> holds and the file
  written is the transaction cache. \<open>ctx\<close> are the serialised events that describe the run
  environment of the statement (none for a row-based statement) and \<open>evb\<close> is the
  serialised event itself. \<open>True\<close> is the error return. Inside a union of events
  (\<open>do_union\<close>) the function returns 0 at once; a failing flush of the pending rows event
  returns the error; on an open log a session without \<open>OPTION_BIN_LOG\<close> returns 0, and a
  failing write goes through the label \<open>err\<close>, which calls \<open>set_write_error\<close>; on a closed
  log the function returns the error it started with. For these two statements the
  database filter is not consulted; \<open>opt_using_transactions\<close> is taken as set and the
  cache of the session as set up.
\<close>

definition bin_log_write_event ::
  "io_env \<Rightarrow> MYSQL_BIN_LOG \<Rightarrow> THD \<Rightarrow> Log_event \<Rightarrow> byte list list \<Rightarrow> byte list
     \<Rightarrow> bool \<times> MYSQL_BIN_LOG \<times> THD \<times> action list" where
  "bin_log_write_event env bl thd ev ctx evb =
     (if do_union thd then (False, bl, thd, [])
      else
        (case binlog_flush_pending_rows_event env bl thd of
           (f, blf, thdf, facts) \<Rightarrow>
             (if f \<noteq> 0 then (True, blf, thdf, facts)
              else if log_is_open blf then
                (if \<not> OPTION_BIN_LOG thdf then (False, blf, thdf, facts)
                 else
                   (let d1 = binlog_start_trans_and_stmt (trx_data thdf) in
                    (case write_events (ctx @ [evb]) (trans_log d1) of
                       (True, c) \<Rightarrow>
                         (case set_write_error env blf
                                 (thdf\<lparr>trx_data := d1\<lparr>trans_log := c\<rparr>\<rparr>) of
                            (bl', thd') \<Rightarrow> (True, bl', thd', facts))
                     | (False, c) \<Rightarrow>
                         (False, blf, thdf\<lparr>trx_data := d1\<lparr>trans_log := c\<rparr>\<rparr>,
                          facts @ [Bin_log_write ev]))))
              else (True, blf, thdf, facts))))"

text \<open>
  \<open>binlog_savepoint_set\<close>: the token \<open>*sv\<close> is the position before the SAVEPOINT event is
  written. \<open>append_fails\<close> says that building the query string failed.
\<close>

definition binlog_savepoint_set ::
  "io_env \<Rightarrow> MYSQL_BIN_LOG \<Rightarrow> THD \<Rightarrow> bool \<Rightarrow> byte list list \<Rightarrow> byte list
     \<Rightarrow> int \<times> my_off_t \<times> MYSQL_BIN_LOG \<times> THD \<times> action list" where
  "binlog_savepoint_set env bl thd append_fails ctx evb =
     (let sv = binlog_trans_log_savepos thd in
      if append_fails then (1, sv, bl, thd, [])
      else
        (case bin_log_write_event env bl thd
                (Query_log_event (''SAVEPOINT `'' @ lex_ident thd @ ''`'')) ctx evb of
           (e, bl', thd', acts) \<Rightarrow> ((if e then 1 else 0), sv, bl', thd', acts)))"

text \<open>\<open>binlog_savepoint_rollback\<close>\<close>

definition binlog_savepoint_rollback ::
  "io_env \<Rightarrow> my_off_t \<Rightarrow> MYSQL_BIN_LOG \<Rightarrow> THD \<Rightarrow> my_off_t \<Rightarrow> bool \<Rightarrow> byte list list
     \<Rightarrow> byte list \<Rightarrow> int \<times> MYSQL_BIN_LOG \<times> THD \<times> action list" where
  "binlog_savepoint_rollback env mx bl thd sv append_fails ctx evb =
     (if trans_has_updated_non_trans_table thd \<or> OPTION_KEEP_LOG thd then
        (if append_fails then (1, bl, thd, [])
         else
           (case bin_log_write_event env bl thd
                   (Query_log_event (''ROLLBACK TO `'' @ lex_ident thd @ ''`'')) ctx evb of
              (e, bl', thd', acts) \<Rightarrow> ((if e then 1 else 0), bl', thd', acts)))
      else (0, bl, binlog_trans_log_truncate mx thd sv, []))"

text \<open>
  What a session does to its cache between setting a savepoint and rolling back to it:
  it writes events, replaces the pending rows event, and truncates (a statement rollback,
  or a rollback to a later savepoint). A write that fails changes nothing.
\<close>

datatype cache_call =
    Cache_write "byte list"
  | Cache_set_pending "Rows_log_event option"
  | Cache_truncate my_off_t

fun cache_step :: "my_off_t \<Rightarrow> binlog_trx_data \<Rightarrow> cache_call \<Rightarrow> binlog_trx_data" where
  "cache_step mx d (Cache_write bs) =
     (case my_b_write_cache bs (trans_log d) of
        None \<Rightarrow> d
      | Some c \<Rightarrow> d\<lparr>trans_log := c\<rparr>)"
| "cache_step mx d (Cache_set_pending p) = set_pending p d"
| "cache_step mx d (Cache_truncate p) = truncate_cache mx p d"

definition cache_run :: "my_off_t \<Rightarrow> binlog_trx_data \<Rightarrow> cache_call list \<Rightarrow> binlog_trx_data" where
  "cache_run mx d cs = foldl (cache_step mx) d cs"

fun truncate_targets :: "cache_call list \<Rightarrow> my_off_t list" where
  "truncate_targets [] = []"
| "truncate_targets (Cache_truncate p # cs) = p # truncate_targets cs"
| "truncate_targets (c # cs) = truncate_targets cs"

section \<open>Recovery of the last log file\<close>

text \<open>
  An event returned by \<open>Log_event::read_log_event\<close> and valid: its type (with the query of a
  query event and the xid of an XID event), the value of \<open>my_b_tell(log)\<close> after it was
  read, whether \<open>log->error\<close> is set then, and whether storing its xid fails for lack of
  memory.
\<close>

datatype event_type = QUERY_EVENT string | XID_EVENT "64 word" | OTHER_EVENT

record scanned_event =
  ev_type :: event_type
  ev_end :: my_off_t
  ev_log_error :: bool
  ev_insert_fails :: bool

record recover_state =
  in_transaction :: bool
  valid_pos :: my_off_t
  xids :: "64 word list"

text \<open>The body of the loop of \<open>TC_LOG_BINLOG::recover\<close>; \<open>None\<close> is \<open>goto err2\<close>.\<close>

definition recover_step :: "recover_state \<Rightarrow> scanned_event \<Rightarrow> recover_state option" where
  "recover_step st e =
     (let st1 = (if ev_type e = QUERY_EVENT ''BEGIN'' then st\<lparr>in_transaction := True\<rparr> else st);
          r2 = (if ev_type e = QUERY_EVENT ''COMMIT''
                then Some (st1\<lparr>in_transaction := False\<rparr>)
                else (case ev_type e of
                        XID_EVENT x \<Rightarrow>
                          (if ev_insert_fails e then None
                           else Some (st1\<lparr>in_transaction := False, xids := x # xids st1\<rparr>))
                      | _ \<Rightarrow> Some st1))
      in (case r2 of
            None \<Rightarrow> None
          | Some st2 \<Rightarrow>
              Some (if \<not> ev_log_error e \<and> \<not> in_transaction st2
                    then st2\<lparr>valid_pos := ev_end e\<rparr> else st2)))"

fun recover_loop :: "recover_state \<Rightarrow> scanned_event list \<Rightarrow> bool \<times> recover_state" where
  "recover_loop st [] = (True, st)"
| "recover_loop st (e # es) =
     (case recover_step st e of None \<Rightarrow> (False, st) | Some st' \<Rightarrow> recover_loop st' es)"

text \<open>
  \<open>TC_LOG_BINLOG::recover(log, fdle, valid_pos)\<close>: the return value and \<open>*valid_pos\<close>. The
  events are those read before \<open>read_log_event\<close> returns null or an invalid event.
\<close>

definition recover ::
  "bool \<Rightarrow> bool \<Rightarrow> scanned_event list \<Rightarrow> my_off_t \<Rightarrow> bool \<Rightarrow> int \<times> my_off_t" where
  "recover fdle_is_valid hash_init_fails evs vp ha_recover_fails =
     (if \<not> fdle_is_valid \<or> hash_init_fails then (1, vp)
      else
        (case recover_loop \<lparr>in_transaction = False, valid_pos = vp, xids = []\<rparr> evs of
           (False, st) \<Rightarrow> (1, valid_pos st)
         | (True, st) \<Rightarrow> (if ha_recover_fails then (1, valid_pos st) else (0, valid_pos st))))"

datatype file_action = Chsize my_off_t | Clear_IN_USE

text \<open>
  What happens to the file in \<open>TC_LOG_BINLOG::open\<close>, as a record of inputs.
\<close>

record open_input =
  in_use :: bool
  fde_end :: my_off_t
  fdle_valid :: bool
  hash_fails :: bool
  events :: "scanned_event list"
  ha_fails :: bool
  binlog_size :: my_off_t
  my_open_fails :: bool
  my_chsize_fails :: bool
  my_pwrite_fails :: bool

text \<open>
  \<open>TC_LOG_BINLOG::open\<close> from the read of the first event on: \<open>in_use\<close> says that the first
  event is a format description event with \<open>LOG_EVENT_BINLOG_IN_USE_F\<close>, \<open>fde_end\<close> is
  \<open>my_b_tell\<close> after it. The result is the return value, \<open>valid_pos\<close> and what was done
  to the file.
\<close>

definition open_recover_trim :: "open_input \<Rightarrow> int \<times> my_off_t \<times> file_action list" where
  "open_recover_trim i =
     (let (error, vp) =
            (if in_use i
             then recover (fdle_valid i) (hash_fails i) (events i) (fde_end i) (ha_fails i)
             else (0, 0))
      in if error \<noteq> 0 then (error, vp, [])
         else if vp > 0 then
           (if my_open_fails i then (- 1, vp, [])
            else if vp < binlog_size i then
              (if my_chsize_fails i then (- 1, vp, [])
               else if my_pwrite_fails i then (- 1, vp, [Chsize vp])
               else (error, vp, [Chsize vp, Clear_IN_USE]))
            else if my_pwrite_fails i then (- 1, vp, [])
            else (error, vp, [Clear_IN_USE]))
         else (error, vp, []))"

section \<open>Rotation\<close>






section \<open>Copying a transaction cache to the log file (\<open>MYSQL_BIN_LOG::write_cache\<close>)\<close>

text \<open>
  The layout of an event header, from log_event.h (not among the sources): 19 bytes, the
  length of the event in bytes 9 to 12 and \<open>end_log_pos\<close> in bytes 13 to 16.
\<close>

definition LOG_EVENT_HEADER_LEN :: nat where "LOG_EVENT_HEADER_LEN = 19"
definition EVENT_LEN_OFFSET :: nat where "EVENT_LEN_OFFSET = 9"
definition LOG_POS_OFFSET :: nat where "LOG_POS_OFFSET = 13"

text \<open>
  \<open>uint4korr\<close> and \<open>int4store\<close> of my_global.h (not among the sources): an unsigned
  32-bit value in four bytes, the low byte first. \<open>int4store\<close> keeps the low 32 bits.
\<close>

definition uint4korr :: "byte list \<Rightarrow> nat \<Rightarrow> nat" where
  "uint4korr b i = unat (b ! i) + 256 * unat (b ! (i + 1)) + 65536 * unat (b ! (i + 2))
                     + 16777216 * unat (b ! (i + 3))"

definition int4store :: "byte list \<Rightarrow> nat \<Rightarrow> nat \<Rightarrow> byte list" where
  "int4store b i v = b[i := of_nat v, i + 1 := of_nat (v div 256),
                       i + 2 := of_nat (v div 65536), i + 3 := of_nat (v div 16777216)]"

text \<open>
  How a copy can end without the log file written as meant: a write to the log file fails
  (the function returns \<open>ER_ERROR_ON_WRITE\<close>), or the code reads bytes of the read buffer
  that the last fill did not set (\<open>memcpy\<close> of a split header from a segment that is too
  short, or a header position that wraps around in \<open>uint\<close>). In the second case the code
  itself goes on with the bytes that an earlier fill left in the buffer, which the segments
  do not determine, and can return 0; the model stops there with \<open>Read_outside_segment\<close>,
  which is no return value of the function.
\<close>

datatype wc_error = Error_on_write | Read_outside_segment

text \<open>
  The inner loop \<open>while (hdr_offs < length)\<close> over the headers of the segment in the read
  buffer \<open>buf\<close>. All variables are \<open>uint\<close>: the arithmetic is modulo \<open>2 ^ 32\<close>. A header
  that does not fit in the segment is saved in \<open>header\<close> (\<open>carry\<close> bytes) and the segment
  is cut before it; a whole header has \<open>grp\<close> added to its \<open>end_log_pos\<close> in place. The loop
  does not return when an event length read is 0: the result is then \<open>None\<close>.
\<close>

partial_function (option) fix_headers ::
  "nat \<Rightarrow> byte list \<Rightarrow> nat \<Rightarrow> nat \<Rightarrow> nat \<Rightarrow> byte list
     \<Rightarrow> (wc_error + byte list \<times> nat \<times> nat \<times> nat \<times> byte list) option" where
  "fix_headers grp buf hdr_offs len carry header =
     (if hdr_offs < len then
        (if (hdr_offs + LOG_EVENT_HEADER_LEN) mod 2 ^ 32 > len then
           fix_headers grp buf hdr_offs hdr_offs (len - hdr_offs)
             (take (len - hdr_offs) (drop hdr_offs buf) @ drop (len - hdr_offs) header)
         else if hdr_offs + LOG_EVENT_HEADER_LEN > length buf then Some (Inl Read_outside_segment)
         else
           (let val = (uint4korr buf (hdr_offs + LOG_POS_OFFSET) + grp) mod 2 ^ 32;
                buf' = int4store buf (hdr_offs + LOG_POS_OFFSET) val
            in fix_headers grp buf'
                 ((hdr_offs + uint4korr buf' (hdr_offs + EVENT_LEN_OFFSET)) mod 2 ^ 32)
                 len carry header))
      else Some (Inr (buf, hdr_offs, len, carry, header)))"

declare fix_headers.simps [code]

text \<open>
  \<open>my_b_write(&log_file, ...)\<close>: the log file is the bytes written and the number of bytes
  it still accepts; a write beyond that fails.
\<close>

definition log_file_write ::
  "byte list \<Rightarrow> byte list \<times> nat \<Rightarrow> (byte list \<times> nat) option" where
  "log_file_write bs f =
     (if length bs > snd f then None else Some (fst f @ bs, snd f - length bs))"

text \<open>The local variables of \<open>write_cache\<close> and the log file.\<close>

record wc_state =
  log_file :: "byte list \<times> nat"
  carry :: nat
  hdr_offs :: nat
  header :: "byte list"

text \<open>
  \<open>if (unlikely(carry > 0))\<close>: the two halves of a split header are assembled in
  \<open>header\<close>, \<open>end_log_pos\<close> is fixed, the first half is written, the fixed second half is
  copied back to the start of the segment, and \<open>hdr_offs\<close> is the length of the event less
  \<open>carry\<close>. The result is the state and the segment.
\<close>

definition splice_header :: "nat \<Rightarrow> wc_state \<Rightarrow> byte list \<Rightarrow> wc_error + wc_state \<times> byte list" where
  "splice_header grp st seg =
     (if carry st > 0 then
        (if length seg < LOG_EVENT_HEADER_LEN - carry st then Inl Read_outside_segment
         else
           (let header1 = take (carry st) (header st)
                            @ take (LOG_EVENT_HEADER_LEN - carry st) seg;
                val = (uint4korr header1 LOG_POS_OFFSET + grp) mod 2 ^ 32;
                header2 = int4store header1 LOG_POS_OFFSET val
            in (case log_file_write (take (carry st) header2) (log_file st) of
                  None \<Rightarrow> Inl Error_on_write
                | Some f \<Rightarrow>
                    Inr (st\<lparr>log_file := f, header := header2,
                             hdr_offs := (uint4korr header2 EVENT_LEN_OFFSET + 2 ^ 32 - carry st)
                                           mod 2 ^ 32,
                             carry := 0\<rparr>,
                         drop (carry st) header2 @ drop (LOG_EVENT_HEADER_LEN - carry st) seg))))
      else Inr (st, seg))"

text \<open>
  The end of an iteration of the outer loop: \<open>length\<close> bytes of the segment are written.
\<close>

definition finish_segment ::
  "wc_state \<Rightarrow> byte list \<times> nat \<times> nat \<times> nat \<times> byte list \<Rightarrow> wc_error + wc_state" where
  "finish_segment st r =
     (case r of (buf, ho, len, c, h) \<Rightarrow>
        (case log_file_write (take len buf) (log_file st) of
           None \<Rightarrow> Inl Error_on_write
         | Some f \<Rightarrow> Inr (st\<lparr>log_file := f, carry := c, hdr_offs := ho, header := h\<rparr>)))"

text \<open>
  One iteration of the outer \<open>do ... while\<close> loop on the segment \<open>seg\<close>; after the inner
  loop, \<open>hdr_offs -= length\<close>.
\<close>

definition write_cache_segment ::
  "nat \<Rightarrow> wc_state \<Rightarrow> byte list \<Rightarrow> (wc_error + wc_state) option" where
  "write_cache_segment grp st seg =
     (case splice_header grp st seg of
        Inl e \<Rightarrow> Some (Inl e)
      | Inr (st1, seg1) \<Rightarrow>
          (if length seg > 0 then
             (case fix_headers grp seg1 (hdr_offs st1) (length seg) (carry st1) (header st1) of
                None \<Rightarrow> None
              | Some (Inl e) \<Rightarrow> Some (Inl e)
              | Some (Inr (buf, ho, len, c, h)) \<Rightarrow>
                  Some (finish_segment st1 (buf, (ho + 2 ^ 32 - len) mod 2 ^ 32, len, c, h)))
           else Some (finish_segment st1 (seg1, hdr_offs st1, length seg, carry st1, header st1))))"

text \<open>
  The iterations after the first: each \<open>my_b_fill(cache)\<close> gives the next segment, and an
  empty one (or none) ends the loop.
\<close>

fun write_cache_fills ::
  "nat \<Rightarrow> wc_state \<Rightarrow> byte list list \<Rightarrow> (wc_error + wc_state) option" where
  "write_cache_fills grp st [] = Some (Inr st)"
| "write_cache_fills grp st (seg # segs) =
     (if seg = [] then Some (Inr st)
      else (case write_cache_segment grp st seg of
              None \<Rightarrow> None
            | Some (Inl e) \<Rightarrow> Some (Inl e)
            | Some (Inr st') \<Rightarrow> write_cache_fills grp st' segs))"

text \<open>
  \<open>MYSQL_BIN_LOG::write_cache(cache, lock_log)\<close>. \<open>first\<close> is what
  \<open>my_b_bytes_in_cache\<close> finds in the buffer after \<open>reinit_io_cache\<close>, \<open>fills\<close> what the
  calls of \<open>my_b_fill\<close> read; \<open>log_pos\<close> is \<open>my_b_tell(&log_file)\<close>, cast to \<open>uint\<close> for
  \<open>group\<close>. The result is the log file and the final \<open>carry\<close>, or the failure.
\<close>

definition write_cache ::
  "bool \<Rightarrow> bool \<Rightarrow> nat \<Rightarrow> byte list \<times> nat \<Rightarrow> byte list \<Rightarrow> byte list list
     \<Rightarrow> (wc_error + (byte list \<times> nat) \<times> nat) option" where
  "write_cache reinit_fails cache_error log_pos logf first fills =
     (if reinit_fails then Some (Inl Error_on_write)
      else
        (let grp = log_pos mod 2 ^ 32;
             st = \<lparr>log_file = logf, carry = 0, hdr_offs = 0,
                   header = replicate LOG_EVENT_HEADER_LEN 0\<rparr>
         in (case write_cache_segment grp st first of
               None \<Rightarrow> None
             | Some (Inl e) \<Rightarrow> Some (Inl e)
             | Some (Inr st1) \<Rightarrow>
                 (case write_cache_fills grp st1 fills of
                    None \<Rightarrow> None
                  | Some (Inl e) \<Rightarrow> Some (Inl e)
                  | Some (Inr st2) \<Rightarrow>
                      (if cache_error then Some (Inl Error_on_write)
                       else Some (Inr (log_file st2, carry st2)))))))"


text \<open>
  A serialised event in the cache: at least a header, and the length field of the header
  is the length of the event.
\<close>

definition wf_event :: "byte list \<Rightarrow> bool" where
  "wf_event e \<longleftrightarrow> LOG_EVENT_HEADER_LEN \<le> length e \<and> uint4korr e EVENT_LEN_OFFSET = length e"

text \<open>The event with \<open>grp\<close> added to its \<open>end_log_pos\<close>, modulo \<open>2 ^ 32\<close>.\<close>

definition fix_event :: "nat \<Rightarrow> byte list \<Rightarrow> byte list" where
  "fix_event grp e = int4store e LOG_POS_OFFSET ((uint4korr e LOG_POS_OFFSET + grp) mod 2 ^ 32)"

text \<open>
  The fills of a cache: none is empty, and each but the last holds at least a header (a
  fill is a whole read buffer, but for the last).
\<close>

fun segs_ok :: "byte list list \<Rightarrow> bool" where
  "segs_ok [] = True"
| "segs_ok [f] = (f \<noteq> [])"
| "segs_ok (f # g # fs) = (LOG_EVENT_HEADER_LEN \<le> length f \<and> segs_ok (g # fs))"

text \<open>
  What the outer loop does once the inner loop has returned \<open>r\<close> for the current segment.
\<close>

definition after_headers ::
  "nat \<Rightarrow> wc_state \<Rightarrow> byte list list
     \<Rightarrow> (wc_error + byte list \<times> nat \<times> nat \<times> nat \<times> byte list) option
     \<Rightarrow> (wc_error + wc_state) option" where
  "after_headers grp st fills r =
     (case r of
        None \<Rightarrow> None
      | Some (Inl e) \<Rightarrow> Some (Inl e)
      | Some (Inr (buf, ho, len, c, h)) \<Rightarrow>
          (case finish_segment st (buf, (ho + 2 ^ 32 - len) mod 2 ^ 32, len, c, h) of
             Inl e \<Rightarrow> Some (Inl e)
           | Inr st' \<Rightarrow> write_cache_fills grp st' fills))"

text \<open>
  The words of the specification: \<open>e'\<close> is \<open>e\<close> with the position \<open>log_pos\<close> of the log file
  added to the \<open>end_log_pos\<close> field of its header, and no other byte changed.
\<close>

definition rewritten :: "nat \<Rightarrow> byte list \<Rightarrow> byte list \<Rightarrow> bool" where
  "rewritten log_pos e e' \<longleftrightarrow>
     length e' = length e \<and>
     uint4korr e' LOG_POS_OFFSET = (uint4korr e LOG_POS_OFFSET + log_pos) mod 2 ^ 32 \<and>
     (\<forall>i<length e. i < LOG_POS_OFFSET \<or> LOG_POS_OFFSET + 4 \<le> i \<longrightarrow> e' ! i = e ! i)"

text \<open>Two events of 20 and 21 bytes with relative end positions 20 and 41.\<close>

definition sample_ev1 :: "byte list" where
  "sample_ev1 = [1,1,1,1, 2, 3,3,3,3, 20,0,0,0, 20,0,0,0, 0,0, 77]"

definition sample_ev2 :: "byte list" where
  "sample_ev2 = [1,1,1,1, 2, 3,3,3,3, 21,0,0,0, 41,0,0,0, 0,0, 88, 99]"

section \<open>The memory-mapped coordinator log (class \<open>TC_LOG_MMAP\<close>)\<close>

text \<open>The log is a file mapped at \<open>data\<close> and divided into pages of
  \<open>tc_log_page_size\<close> bytes; every page is an array of 8-byte slots, a slot holding the
  XID of a prepared transaction or 0 when it is free.  Pointers into the mapping are
  modelled as byte offsets from \<open>data\<close>, the null pointer as \<open>None\<close>, and the mapped
  memory as a function from the offset of a slot to the 64-bit word stored there.\<close>

datatype PAGE_STATE = POOL | ERROR | DIRTY

text \<open>\<open>TC_LOG_HEADER_SIZE\<close> is \<open>sizeof(tc_log_magic)+1\<close>, the magic number having four
  bytes; \<open>sizeof_my_xid\<close> is \<open>sizeof(my_xid)\<close>.\<close>

definition TC_LOG_HEADER_SIZE :: nat where
  "TC_LOG_HEADER_SIZE = 5"

definition sizeof_my_xid :: nat where
  "sizeof_my_xid = 8"

text \<open>The fields of \<open>PAGE\<close> that \<open>open\<close> and \<open>log_xid\<close> use (the mutex, the
  condition and the link to the next page are left out).\<close>

record PAGE =
  page_start :: nat
  page_end :: nat
  page_ptr :: "nat option"
  page_size :: nat
  page_free :: nat
  page_waiters :: nat
  page_state :: PAGE_STATE

text \<open>The loop of \<open>TC_LOG_MMAP::open\<close> over the pages, which are allocated with
  \<open>MY_ZEROFILL\<close>.  The loop assigns \<open>next\<close>, \<open>waiters\<close>, \<open>state\<close>, \<open>lock\<close>,
  \<open>cond\<close>, \<open>start\<close>, \<open>end\<close>, \<open>size\<close> and \<open>free\<close>; it does not assign \<open>ptr\<close>,
  which keeps the zero of the allocation.  \<open>pg->end\<close> is
  \<open>(my_xid *)(pg->start + tc_log_page_size)\<close> with \<open>pg->start\<close> a \<open>my_xid *\<close>, so the
  sum advances by \<open>tc_log_page_size\<close> slots of eight bytes.\<close>

definition open_page :: "nat \<Rightarrow> nat \<Rightarrow> PAGE" where
  "open_page psz i =
     \<lparr>page_start = i * psz,
      page_end = i * psz + psz * sizeof_my_xid,
      page_ptr = None,
      page_size = psz div sizeof_my_xid,
      page_free = psz div sizeof_my_xid,
      page_waiters = 0,
      page_state = POOL\<rparr>"

text \<open>After the loop the first page gives up the room of the header:
  \<open>pages[0].size=pages[0].free=(tc_log_page_size-TC_LOG_HEADER_SIZE)/sizeof(my_xid)\<close> and
  \<open>pages[0].start=pages[0].end-pages[0].size\<close>, the subtraction again counting slots.
  \<open>open\<close> ends with \<open>active=pages\<close>: the first page is the active one.\<close>

definition open_pages :: "nat \<Rightarrow> nat \<Rightarrow> PAGE list" where
  "open_pages psz npages =
     (let pages = map (open_page psz) [0 ..< npages];
          sz = (psz - TC_LOG_HEADER_SIZE) div sizeof_my_xid
      in pages[0 := (pages ! 0)\<lparr>page_size := sz, page_free := sz,
                      page_start := page_end (pages ! 0) - sz * sizeof_my_xid\<rparr>])"

text \<open>The search for an empty slot, \<open>while (*p->ptr) p->ptr++\<close>, from the offset
  \<open>q\<close> in a mapping of \<open>flen\<close> bytes.  The loop has no bound of its own (the assertion
  \<open>p->ptr < p->end\<close> is compiled out of a release build); a read that leaves the mapping
  is the result \<open>None\<close>.\<close>

function find_slot :: "(nat \<Rightarrow> 64 word) \<Rightarrow> nat \<Rightarrow> nat \<Rightarrow> nat option" where
  "find_slot mem flen q =
     (if flen < q + sizeof_my_xid then None
      else if mem q \<noteq> 0 then find_slot mem flen (q + sizeof_my_xid)
      else Some q)"
  by pat_completeness auto

termination
  by (relation "measure (\<lambda>(mem, flen, q). flen - q)") (auto simp add: sizeof_my_xid_def)

declare find_slot.simps [simp del]

text \<open>The faults of a call: the slot search reads through the null \<open>p->ptr\<close> or beyond
  the mapping, or \<open>sync()\<close> signals \<open>active->cond\<close> through the null \<open>active\<close>.\<close>

datatype mmap_fault = Null_pointer | Outside_mapping | Null_active

text \<open>What the other threads and the disk do during one call: whether some page is being
  synced when the call reaches \<open>if (syncing)\<close>, the state of the page when the wait
  \<open>while (p->state == DIRTY && syncing)\<close> ends, whether \<open>my_msync\<close> fails, and whether
  another thread has taken a page from the pool as the active one by the time \<open>sync()\<close>
  signals \<open>active->cond\<close>.\<close>

record sync_env =
  somebody_syncing :: bool
  state_after_wait :: PAGE_STATE
  msync_fails :: bool
  new_active :: bool

text \<open>\<open>TC_LOG_MMAP::log_xid\<close> on the active page \<open>p\<close>, which has a free slot (the two
  waits before \<open>p=active\<close> are over).  The cookie is the \<open>ulong\<close>
  \<open>(uchar *)p->ptr - data\<close>; the function returns \<open>int\<close>, so \<open>return err ? 0 : cookie\<close>
  converts the cookie to 32 bits.  A call that syncs the page itself sets \<open>active=0\<close>
  before it calls \<open>sync()\<close>, which after \<open>my_msync\<close> signals
  \<open>pthread_cond_signal(&active->cond)\<close>.  The result is the returned number, the page
  and the memory, or the fault.\<close>

definition log_xid_mmap ::
  "sync_env \<Rightarrow> nat \<Rightarrow> (nat \<Rightarrow> 64 word) \<Rightarrow> PAGE \<Rightarrow> 64 word
     \<Rightarrow> mmap_fault + int \<times> PAGE \<times> (nat \<Rightarrow> 64 word)" where
  "log_xid_mmap env flen mem p xid =
     (case page_ptr p of
        None \<Rightarrow> Inl Null_pointer
      | Some q0 \<Rightarrow>
          (case find_slot mem flen q0 of
             None \<Rightarrow> Inl Outside_mapping
           | Some q \<Rightarrow>
               (let cookie = (of_nat q :: 64 word);
                    mem' = mem(q := xid);
                    p1 = p\<lparr>page_ptr := Some (q + sizeof_my_xid),
                           page_free := page_free p - 1,
                           page_state := DIRTY\<rparr>
                in if somebody_syncing env \<and> state_after_wait env \<noteq> DIRTY
                   then (let err = (state_after_wait env = ERROR)
                         in Inr ((if err then 0 else sint (ucast cookie :: 32 word)),
                                 p1\<lparr>page_state := state_after_wait env\<rparr>, mem'))
                   else if \<not> new_active env then Inl Null_active
                   else (let err = msync_fails env
                         in Inr ((if err then 0 else sint (ucast cookie :: 32 word)),
                                 p1\<lparr>page_state := (if err then ERROR else POOL)\<rparr>,
                                 mem')))))"

section \<open>Sample states\<close>

text \<open>
  A session in a transaction (\<open>OPTION_BEGIN\<close>) with five bytes in its cache, whose
  statement updated a non-transactional table and ended with a write error; an open log;
  calls that all succeed, and an error handler that keeps the first error of a statement.
\<close>

definition sample_cache :: IO_CACHE where
  "sample_cache = \<lparr>store = (\<lambda>i. 0), pos = 5, end_of_file = 100\<rparr>"

definition sample_trx :: binlog_trx_data where
  "sample_trx = \<lparr>trans_log = sample_cache, at_least_one_stmt_committed = True,
     incident = False, m_pending = None, before_stmt_pos = 3\<rparr>"

definition sample_thd :: THD where
  "sample_thd = \<lparr>trx_data = sample_trx, is_error = True,
     main_da_sql_errno = ER_ERROR_ON_WRITE,
     all_modified_non_trans_table = False, stmt_modified_non_trans_table = True,
     OPTION_KEEP_LOG = False, OPTION_BEGIN = True, OPTION_NOT_AUTOCOMMIT = False,
     current_stmt_binlog_row_based = False, lex_ident = ''s1'', ticket = 0,
     do_union = False, OPTION_BIN_LOG = True\<rparr>"

definition sample_log :: MYSQL_BIN_LOG where
  "sample_log = \<lparr>log_is_open = True, write_error = False, prepared_xids = 0,
     stop_new_xids = False, group_commit_allowed = True, force_binlog_order = True,
     current_ticket = 1, next_ticket = 1\<rparr>"

definition sample_env :: io_env where
  "sample_env = \<lparr>flush_pending_fails = False, log_io_fails = False,
     write_incident_fails = False, rotate_fails = False, my_errno_EFBIG = False,
     error_hook = (\<lambda>e (b, c). if b then (b, c) else (True, e))\<rparr>"

definition actions_of :: "int \<times> MYSQL_BIN_LOG \<times> THD \<times> action list \<Rightarrow> action list" where
  "actions_of r = snd (snd (snd r))"

text \<open>
  A savepoint set in the sample session, two later calls on the cache, and the session
  afterwards with no update of a non-transactional table.
\<close>

definition sample_calls :: "cache_call list" where
  "sample_calls = [Cache_write [9, 9], Cache_truncate 6]"

definition sample_thd1 :: THD where
  "sample_thd1 =
     fst (snd (snd (snd
       (binlog_savepoint_set sample_env sample_log sample_thd False [] [1, 2, 3]))))"

definition sample_thd2 :: THD where
  "sample_thd2 = sample_thd1\<lparr>trx_data := cache_run 100 (trx_data sample_thd1) sample_calls,
     stmt_modified_non_trans_table := False\<rparr>"

text \<open>
  The same session with the update of a non-transactional table still recorded; with
  binary logging switched off (\<open>OPTION_BIN_LOG\<close> clear); and inside a stored function,
  whose events are united (\<open>do_union\<close>).
\<close>

definition sample_thd3 :: THD where
  "sample_thd3 = sample_thd2\<lparr>stmt_modified_non_trans_table := True\<rparr>"

definition sample_thd_no_bin_log :: THD where
  "sample_thd_no_bin_log = sample_thd3\<lparr>OPTION_BIN_LOG := False\<rparr>"

definition sample_thd_union :: THD where
  "sample_thd_union = sample_thd3\<lparr>do_union := True\<rparr>"


text \<open>A new coordinator log of six pages of 4096 bytes, every slot free, and a call
  during which nobody else is syncing and the sync succeeds.\<close>

definition sample_mmap_pages :: "PAGE list" where
  "sample_mmap_pages = open_pages 4096 6"

definition sample_mmap_mem :: "nat \<Rightarrow> 64 word" where
  "sample_mmap_mem = (\<lambda>_. 0)"

definition sample_sync_env :: sync_env where
  "sample_sync_env =
     \<lparr>somebody_syncing = False, state_after_wait = POOL, msync_fails = False,
      new_active = False\<rparr>"

section \<open>Truncation and reset of the cache\<close>

lemma reset_empty_cache: "empty_cache (reset mx d)"
  by (simp add: reset_def truncate_cache_def empty_cache_def pending_def set_pending_def
      my_b_tell_def reinit_io_cache_write_def Let_def)

text \<open>
  C5. For every position and every cache state, \<open>truncate\<close> leaves no pending rows event,
  sets the write position of the buffer to the position given, replaces
  \<open>before_stmt_pos\<close> by the undefined sentinel exactly when the position is below it
  (and keeps it otherwise), and sets \<open>at_least_one_stmt_committed\<close> to \<open>pos > 0\<close>.
\<close>

theorem truncate_effect:
  "pending (truncate_cache mx p d) = None \<and>
   my_b_tell (trans_log (truncate_cache mx p d)) = p \<and>
   before_stmt_pos (truncate_cache mx p d) =
     (if p < before_stmt_pos d then MY_OFF_T_UNDEF else before_stmt_pos d) \<and>
   at_least_one_stmt_committed (truncate_cache mx p d) = (p > 0)"
  by (simp add: truncate_cache_def pending_def set_pending_def my_b_tell_def
      reinit_io_cache_write_def Let_def)

text \<open>
  C9. Resetting the cache is idempotent: a second \<open>reset\<close> gives the state the first
  one gave, in every field of the cache.
\<close>

theorem reset_idempotent: "reset mx (reset mx d) = reset mx d"
proof -
  have e: "empty_cache (reset mx d)" by (rule reset_empty_cache)
  have "reset mx (reset mx d) =
        (reset mx d)\<lparr>before_stmt_pos := MY_OFF_T_UNDEF, incident := False,
          trans_log := (trans_log (reset mx d))\<lparr>end_of_file := mx\<rparr>\<rparr>"
    using e by (simp add: reset_def [of mx "reset mx d"] Let_def)
  also have "\<dots> = reset mx d"
    by (simp add: reset_def Let_def)
  finally show ?thesis .
qed

lemmas sample_defs = sample_cache_def sample_trx_def sample_thd_def sample_log_def sample_env_def

section \<open>The incident branch of \<open>binlog_rollback\<close>\<close>

lemma binlog_end_trans_None_no_Set_incident:
  "binlog_end_trans env mx bl thd None all = (e, b, t, a) \<Longrightarrow> Set_incident \<notin> set a"
  by (auto simp add: binlog_end_trans_def Let_def split: if_splits)

text \<open>
  C7, as the claim states it: no call that enters the outer \<open>check_write_error\<close> branch
  executes \<open>set_incident\<close>. The sample session enters the branch and executes it.
\<close>

theorem binlog_rollback_set_incident_reached:
  "check_write_error sample_thd \<and> \<not> empty_cache (trx_data sample_thd) \<and>
   Set_incident \<in> set (actions_of (binlog_rollback sample_env 100 sample_log sample_thd False))"
  by (simp add: check_write_error_def sample_defs empty_cache_def pending_def my_b_tell_def
      binlog_rollback_def actions_of_def Let_def stmt_has_updated_non_trans_table_def
      split: prod.splits)

text \<open>
  C7, amended. In every call that enters the outer \<open>check_write_error\<close> branch the repeated
  test holds again, so \<open>set_incident\<close> is executed exactly when the statement updated a
  non-transactional table or \<open>OPTION_KEEP_LOG\<close> is set.
\<close>

theorem binlog_rollback_set_incident_iff:
  "check_write_error thd \<Longrightarrow> \<not> empty_cache (trx_data thd) \<Longrightarrow>
   (Set_incident \<in> set (actions_of (binlog_rollback env mx bl thd all)))
     = (stmt_has_updated_non_trans_table thd \<or> OPTION_KEEP_LOG thd)"
  by (auto simp add: binlog_rollback_def actions_of_def Let_def split: prod.splits
      dest: binlog_end_trans_None_no_Set_incident)

theorem binlog_rollback_set_incident_iff_witness:
  "check_write_error sample_thd \<and> \<not> empty_cache (trx_data sample_thd) \<and>
   (Set_incident \<in> set (actions_of (binlog_rollback sample_env 100 sample_log sample_thd False)))
     = (stmt_has_updated_non_trans_table sample_thd \<or> OPTION_KEEP_LOG sample_thd)"
proof -
  have h1: "check_write_error sample_thd"
    by (simp add: check_write_error_def sample_defs)
  have h2: "\<not> empty_cache (trx_data sample_thd)"
    by (simp add: empty_cache_def pending_def my_b_tell_def sample_defs)
  show ?thesis
    using h1 h2 binlog_rollback_set_incident_iff [OF h1 h2, of sample_env 100 sample_log False]
    by simp
qed

section \<open>The counter of prepared XIDs\<close>

lemma my_b_write_cache_pos:
  assumes "my_b_write_cache bs c = Some c'"
  shows "unat (pos c') = unat (pos c) + length bs"
proof -
  from assms have le: "unat (pos c) + length bs \<le> unat (end_of_file c)"
    and c': "pos c' = pos c + of_nat (length bs)"
    by (auto simp add: my_b_write_cache_def split: if_splits)
  have "unat (end_of_file c) < 2 ^ 64" using unsigned_less [of "end_of_file c"] by simp
  with le have lt: "unat (pos c) + length bs < 2 ^ 64" by simp
  then have "length bs < 2 ^ 64" by simp
  then have "unat (of_nat (length bs) :: 64 word) = length bs"
    by (simp add: unat_of_nat)
  with lt have "unat (pos c + of_nat (length bs)) = unat (pos c) + length bs"
    by (simp add: unat_add_lem [THEN iffD1])
  with c' show ?thesis by simp
qed

lemma my_b_write_cache_store:
  assumes "my_b_write_cache bs c = Some c'"
  shows "store c' = (\<lambda>i. if unat (pos c) \<le> i \<and> i < unat (pos c) + length bs
                          then bs ! (i - unat (pos c)) else store c i) \<and>
         end_of_file c' = end_of_file c"
  using assms by (auto simp add: my_b_write_cache_def split: if_splits)

lemma my_b_write_cache_bytes:
  assumes "my_b_write_cache bs c = Some c'"
  shows "cache_bytes c' = cache_bytes c @ bs"
proof (rule nth_equalityI)
  show "length (cache_bytes c') = length (cache_bytes c @ bs)"
    by (simp add: cache_bytes_def my_b_write_cache_pos [OF assms])
next
  fix i
  assume "i < length (cache_bytes c')"
  then have i: "i < unat (pos c) + length bs"
    by (simp add: cache_bytes_def my_b_write_cache_pos [OF assms])
  then have "cache_bytes c' ! i = store c' i"
    by (simp add: cache_bytes_def my_b_write_cache_pos [OF assms])
  also have "\<dots> = (cache_bytes c @ bs) ! i"
    using i by (simp add: my_b_write_cache_store [OF assms] cache_bytes_def nth_append)
  finally show "cache_bytes c' ! i = (cache_bytes c @ bs) ! i" .
qed

lemma set_write_error_keeps:
  assumes "set_write_error env bl thd = (bl', thd')"
  shows "bl' = bl\<lparr>write_error := True\<rparr> \<and> trx_data thd' = trx_data thd \<and>
         OPTION_BIN_LOG thd' = OPTION_BIN_LOG thd"
  using assms
  by (auto simp add: set_write_error_def my_error_def Let_def split: if_splits prod.splits)

text \<open>
  The flush of the pending rows event: it leaves the counter, the open flag and
  \<open>OPTION_BIN_LOG\<close> alone and writes neither an XID record nor a query event; when it
  returns 0 it has appended the bytes \<open>flushed_rows\<close> to the cache of the session and left
  the log object as it was; when it fails the cache is as before.
\<close>

lemma flush_pending_effect:
  assumes "flush_and_set_pending_rows_event env bl thd ev = (f, blf, thdf, facts)"
  shows "prepared_xids blf = prepared_xids bl \<and> log_is_open blf = log_is_open bl \<and>
         xid_records xid facts = 0 \<and> Bin_log_write q \<notin> set facts \<and>
         OPTION_BIN_LOG thdf = OPTION_BIN_LOG thd \<and>
         end_of_file (trans_log (trx_data thdf)) = end_of_file (trans_log (trx_data thd)) \<and>
         (f = 0 \<longrightarrow> blf = bl \<and>
            cache_bytes (trans_log (trx_data thdf))
              = cache_bytes (trans_log (trx_data thd)) @ flushed_rows (trx_data thd)) \<and>
         (f \<noteq> 0 \<longrightarrow> trans_log (trx_data thdf) = trans_log (trx_data thd))"
proof (cases "pending (trx_data thd)")
  case None
  with assms show ?thesis
    by (auto simp add: flush_and_set_pending_rows_event_def flushed_rows_def set_pending_def
        xid_records_def Let_def)
next
  case (Some p)
  show ?thesis
  proof (cases "rows_cache_stmt p \<or> my_b_tell (trans_log (trx_data thd)) \<noteq> 0")
    case cache: True
    show ?thesis
    proof (cases "flush_pending_fails env")
      case True
      obtain b t where sw: "set_write_error env bl thd = (b, t)"
        by (cases "set_write_error env bl thd") auto
      with assms Some cache True have "f = 1" "blf = b" "thdf = t" "facts = []"
        by (auto simp add: flush_and_set_pending_rows_event_def Let_def)
      with set_write_error_keeps [OF sw] show ?thesis by (simp add: xid_records_def)
    next
      case nf: False
      show ?thesis
      proof (cases "my_b_write_cache (rows_bytes p) (trans_log (trx_data thd))")
        case None
        obtain b t where sw: "set_write_error env bl thd = (b, t)"
          by (cases "set_write_error env bl thd") auto
        with assms Some cache nf None have "f = 1" "blf = b" "thdf = t" "facts = []"
          by (auto simp add: flush_and_set_pending_rows_event_def Let_def)
        with set_write_error_keeps [OF sw] show ?thesis by (simp add: xid_records_def)
      next
        case (Some c)
        with assms \<open>pending (trx_data thd) = Some p\<close> cache nf
        have r: "f = 0" "blf = bl" "facts = []"
          "thdf = thd\<lparr>trx_data := set_pending ev ((trx_data thd)\<lparr>trans_log := c\<rparr>)\<rparr>"
          by (auto simp add: flush_and_set_pending_rows_event_def Let_def)
        have fr: "flushed_rows (trx_data thd) = rows_bytes p"
          using \<open>pending (trx_data thd) = Some p\<close> cache by (simp add: flushed_rows_def)
        from r fr my_b_write_cache_bytes [OF Some] my_b_write_cache_store [OF Some]
        show ?thesis by (simp add: xid_records_def set_pending_def)
      qed
    qed
  next
    case tofile: False
    then have fr: "flushed_rows (trx_data thd) = []"
      using Some by (simp add: flushed_rows_def)
    show ?thesis
    proof (cases "flush_pending_fails env")
      case True
      obtain b t where sw: "set_write_error env bl thd = (b, t)"
        by (cases "set_write_error env bl thd") auto
      with assms Some tofile True have "f = 1" "blf = b" "thdf = t" "facts = []"
        by (auto simp add: flush_and_set_pending_rows_event_def Let_def)
      with set_write_error_keeps [OF sw] show ?thesis by (simp add: xid_records_def)
    next
      case False
      with assms Some tofile fr show ?thesis
        by (auto simp add: flush_and_set_pending_rows_event_def set_pending_def
            xid_records_def Let_def split: if_splits)
    qed
  qed
qed

lemma flush_pending_room:
  assumes "\<not> flush_pending_fails env" and "\<not> log_io_fails env" and "\<not> rotate_fails env"
    and "unat (pos (trans_log (trx_data thd))) + length (flushed_rows (trx_data thd))
           \<le> unat (end_of_file (trans_log (trx_data thd)))"
  shows "fst (flush_and_set_pending_rows_event env bl thd ev) = 0"
proof (cases "pending (trx_data thd)")
  case None
  then show ?thesis by (simp add: flush_and_set_pending_rows_event_def Let_def)
next
  case (Some p)
  show ?thesis
  proof (cases "rows_cache_stmt p \<or> my_b_tell (trans_log (trx_data thd)) \<noteq> 0")
    case True
    with Some assms(4)
    have "unat (pos (trans_log (trx_data thd))) + length (rows_bytes p)
            \<le> unat (end_of_file (trans_log (trx_data thd)))"
      by (simp add: flushed_rows_def)
    then obtain c where "my_b_write_cache (rows_bytes p) (trans_log (trx_data thd)) = Some c"
      by (simp add: my_b_write_cache_def)
    with Some True assms(1) show ?thesis
      by (simp add: flush_and_set_pending_rows_event_def Let_def)
  next
    case False
    with Some assms(1,2,3) show ?thesis
      by (simp add: flush_and_set_pending_rows_event_def Let_def)
  qed
qed

lemma cache_bytes_empty: "(cache_bytes c = []) = (my_b_tell c = 0)"
  by (simp add: cache_bytes_def my_b_tell_def unat_eq_0)

lemma bin_log_write_cache_effect:
  assumes "bin_log_write_cache env bl cache (Xid_log_event xid) inc = (e, bl', acts)"
  shows "(e \<longrightarrow> prepared_xids bl' = prepared_xids bl) \<and>
         (\<not> e \<longrightarrow> prepared_xids bl' = prepared_xids bl + (if log_is_open bl then 1 else 0) \<and>
            xid_records xid acts = (if log_is_open bl \<and> 0 < my_b_tell cache then 1 else 0)) \<and>
         (\<not> log_io_fails env \<longrightarrow> \<not> e)"
  using assms
  by (auto simp add: bin_log_write_cache_def xid_records_def Let_def split: if_splits)

text \<open>
  C3. For every call of \<open>log_xid\<close> and every call of \<open>unlog\<close>: a failing \<open>log_xid\<close> leaves
  \<open>prepared_xids\<close> as it was; the call succeeds when no I/O fails and the cache has room
  for the pending rows event; a successful one writes the XID record at most once, and
  when it has written it the counter is one more than before. On an open log, which
  \<open>MYSQL_BIN_LOG::write\<close> asserts, every successful call makes the counter one more, the
  record is written whenever the cache holds bytes, a session with an empty cache writes
  nothing, and an \<open>unlog\<close> that follows directly gives back the value before the
  \<open>log_xid\<close>. Every \<open>unlog\<close> makes the counter one less and broadcasts \<open>COND_prep_xids\<close>
  exactly when the new value is 0.
\<close>

theorem log_xid_unlog_prepared_xids:
  assumes "log_xid env mx bl thd xid = (res, bl1, thd1, acts1)"
    and "unlog env2 bl2 = (r, bl3, acts2)"
  shows "(res \<noteq> 1 \<longrightarrow> prepared_xids bl1 = prepared_xids bl) \<and>
         (\<not> flush_pending_fails env \<and> \<not> log_io_fails env \<and> \<not> rotate_fails env \<and>
          unat (position (trx_data thd)) + length (flushed_rows (trx_data thd))
            \<le> unat (end_of_file (trans_log (trx_data thd))) \<longrightarrow> res = 1) \<and>
         (res = 1 \<longrightarrow>
            xid_records xid acts1 \<le> 1 \<and>
            (0 < xid_records xid acts1 \<longrightarrow> prepared_xids bl1 = prepared_xids bl + 1) \<and>
            (log_is_open bl \<longrightarrow>
               prepared_xids bl1 = prepared_xids bl + 1 \<and>
               prepared_xids (fst (snd (unlog env2 bl1))) = prepared_xids bl \<and>
               (0 < my_b_tell (trans_log (trx_data thd)) \<longrightarrow> xid_records xid acts1 = 1) \<and>
               (empty_cache (trx_data thd) \<longrightarrow> acts1 = []))) \<and>
         prepared_xids bl3 = prepared_xids bl2 - 1 \<and>
         ((Broadcast_COND_prep_xids \<in> set acts2) = (prepared_xids bl3 = 0))"
proof -
  obtain f blf thdf facts
    where fl: "flush_and_set_pending_rows_event env bl thd None = (f, blf, thdf, facts)"
    by (cases "flush_and_set_pending_rows_event env bl thd None") auto
  note fe = flush_pending_effect [OF fl, of xid]
  let ?d = "trx_data thdf"
  obtain e bl' acts
    where w: "bin_log_write_cache env blf (trans_log ?d) (Xid_log_event xid) (has_incident ?d)
                = (e, bl', acts)"
    by (cases "bin_log_write_cache env blf (trans_log ?d) (Xid_log_event xid) (has_incident ?d)")
      auto
  note we = bin_log_write_cache_effect [OF w]
  have b: "prepared_xids bl3 = prepared_xids bl2 - 1 \<and>
           ((Broadcast_COND_prep_xids \<in> set acts2) = (prepared_xids bl3 = 0))"
    using assms(2) by (auto simp add: unlog_def Let_def)
  let ?room = "\<not> flush_pending_fails env \<and> \<not> log_io_fails env \<and> \<not> rotate_fails env \<and>
          unat (position (trx_data thd)) + length (flushed_rows (trx_data thd))
            \<le> unat (end_of_file (trans_log (trx_data thd)))"
  have f0: "f = 0" if ?room
    using flush_pending_room [of env thd bl None] that fl
    by (simp add: position_def my_b_tell_def)
  show ?thesis
  proof (cases "f = 0")
    case False
    with assms(1) fl have "res = 0" "bl1 = blf"
      by (auto simp add: log_xid_def binlog_end_trans_def binlog_flush_pending_rows_event_def)
    with fe b False f0 show ?thesis by auto
  next
    case True
    with assms(1) fl w have r: "res = (if e then 0 else 1)" "bl1 = bl'" "acts1 = facts @ acts"
      by (auto simp add: log_xid_def binlog_end_trans_def binlog_flush_pending_rows_event_def
          Let_def)
    from True fe have blf: "blf = bl"
      and cb: "cache_bytes (trans_log ?d)
                 = cache_bytes (trans_log (trx_data thd)) @ flushed_rows (trx_data thd)"
      and xf: "xid_records xid facts = 0" by auto
    have xa: "xid_records xid acts1 = xid_records xid acts"
      using r xf by (simp add: xid_records_def)
    show ?thesis
    proof (cases e)
      case True
      with r we blf b show ?thesis by auto
    next
      case ne: False
      with we blf have p1: "prepared_xids bl1 = prepared_xids bl + (if log_is_open bl then 1 else 0)"
        and x1: "xid_records xid acts
                   = (if log_is_open bl \<and> 0 < my_b_tell (trans_log ?d) then 1 else 0)"
        using r by auto
      have ne1: "0 < my_b_tell (trans_log (trx_data thd)) \<Longrightarrow> 0 < my_b_tell (trans_log ?d)"
      proof -
        assume "0 < my_b_tell (trans_log (trx_data thd))"
        then have "cache_bytes (trans_log (trx_data thd)) \<noteq> []"
          by (simp add: cache_bytes_empty)
        with cb have "cache_bytes (trans_log ?d) \<noteq> []" by simp
        then have "my_b_tell (trans_log ?d) \<noteq> 0" by (simp add: cache_bytes_empty)
        then show ?thesis by (simp add: word_greater_zero_iff)
      qed
      have em: "empty_cache (trx_data thd) \<Longrightarrow> log_is_open bl \<Longrightarrow> acts1 = []"
      proof -
        assume ec: "empty_cache (trx_data thd)" and op: "log_is_open bl"
        from ec have pn: "pending (trx_data thd) = None"
          and z: "my_b_tell (trans_log (trx_data thd)) = 0"
          by (simp_all add: empty_cache_def)
        from fl pn have "facts = []" "trans_log ?d = trans_log (trx_data thd)"
          by (auto simp add: flush_and_set_pending_rows_event_def set_pending_def Let_def)
        with w z blf op have "acts = []"
          by (auto simp add: bin_log_write_cache_def Let_def split: if_splits)
        with r \<open>facts = []\<close> show ?thesis by simp
      qed
      have u: "log_is_open bl \<Longrightarrow> prepared_xids (fst (snd (unlog env2 bl1))) = prepared_xids bl"
        using p1 by (simp add: unlog_def Let_def)
      have res1: "res = 1" using r ne by simp
      have c1: "xid_records xid acts1 \<le> 1" using xa x1 by simp
      have c2: "0 < xid_records xid acts1 \<longrightarrow> prepared_xids bl1 = prepared_xids bl + 1"
        using xa x1 p1 by (simp split: if_splits)
      have c3: "log_is_open bl \<longrightarrow> prepared_xids bl1 = prepared_xids bl + 1" using p1 by simp
      have c4: "log_is_open bl \<longrightarrow> 0 < my_b_tell (trans_log (trx_data thd))
                  \<longrightarrow> xid_records xid acts1 = 1"
        using xa x1 ne1 by simp
      from res1 c1 c2 c3 c4 u em b show ?thesis by simp
    qed
  qed
qed

theorem log_xid_unlog_prepared_xids_witness:
  "fst (log_xid sample_env 100 sample_log sample_thd 42) = 1 \<and>
   xid_records 42 (actions_of (log_xid sample_env 100 sample_log sample_thd 42)) = 1 \<and>
   prepared_xids (fst (snd (log_xid sample_env 100 sample_log sample_thd 42))) = 1 \<and>
   prepared_xids (fst (snd (unlog sample_env
      (fst (snd (log_xid sample_env 100 sample_log sample_thd 42)))))) = 0 \<and>
   Broadcast_COND_prep_xids \<in> set (snd (snd (unlog sample_env
      (fst (snd (log_xid sample_env 100 sample_log sample_thd 42))))))"
proof -
  let ?l = "log_xid sample_env 100 sample_log sample_thd 42"
  let ?u = "unlog sample_env (fst (snd ?l))"
  have o: "log_is_open sample_log" by (simp add: sample_defs)
  have ne: "0 < my_b_tell (trans_log (trx_data sample_thd))"
    by (simp add: my_b_tell_def sample_defs)
  have f: "fst ?l = 1"
    by (simp add: log_xid_def binlog_end_trans_def bin_log_write_cache_def
        binlog_flush_pending_rows_event_def flush_and_set_pending_rows_event_def
        set_pending_def pending_def my_b_tell_def Let_def sample_defs)
  have h2: "?l = (1, fst (snd ?l), fst (snd (snd ?l)), actions_of ?l)"
    using f unfolding actions_of_def by (metis prod.collapse)
  have h3: "?u = (fst ?u, fst (snd ?u), snd (snd ?u))" by simp
  show ?thesis
    using log_xid_unlog_prepared_xids [OF h2 h3] o ne f by (simp add: sample_defs)
qed

section \<open>Ticket rollover\<close>

lemma disabled_gc_step:
  assumes "\<not> group_commit_allowed bl"
  shows "\<not> group_commit_allowed (gc_step bl c)"
proof (cases c)
  case (Order thd ht)
  with assms show ?thesis
    by (simp add: order_for_group_commit_def disable_group_commit_def)
next
  case (Increment thd)
  with assms show ?thesis
    by (simp add: increment_group_commit_ticket_def disable_group_commit_def Let_def)
next
  case (Wait thd ws)
  have "wait_loop bl t ws = Some bl" for t using assms by (cases ws) simp_all
  with Wait assms show ?thesis
    by (simp add: wait_for_group_commit_order_def disable_group_commit_def)
qed

lemma disabled_gc_run:
  "\<not> group_commit_allowed bl \<Longrightarrow> \<not> group_commit_allowed (gc_run bl cs)"
  unfolding gc_run_def
  by (induction cs arbitrary: bl) (simp_all add: disabled_gc_step)

text \<open>
  C8. When \<open>order_for_group_commit\<close> assigns a ticket \<open>t\<close> with \<open>t + 1 = 0\<close>, it returns 1
  (the session is not ordered) and leaves \<open>group_commit_allowed\<close> false; the flag is still
  false after any later calls on the ticket state, and every later
  \<open>order_for_group_commit\<close> returns 1 as well.
\<close>

theorem ticket_rollover_disables:
  assumes "ticket thd = 0" and "group_commit_allowed bl" and "force_binlog_order bl"
    and "ht = Some True" and "next_ticket bl + 1 = 0"
  shows "fst (order_for_group_commit bl thd ht) = 1 \<and>
         \<not> group_commit_allowed (fst (snd (order_for_group_commit bl thd ht))) \<and>
         \<not> group_commit_allowed (gc_run (fst (snd (order_for_group_commit bl thd ht))) cs) \<and>
         fst (order_for_group_commit
               (gc_run (fst (snd (order_for_group_commit bl thd ht))) cs) thd2 ht2) = 1"
proof -
  let ?bl = "fst (snd (order_for_group_commit bl thd ht))"
  have r: "fst (order_for_group_commit bl thd ht) = 1"
    and d: "\<not> group_commit_allowed ?bl"
    using assms by (simp_all add: order_for_group_commit_def disable_group_commit_def Let_def)
  have s: "\<not> group_commit_allowed (gc_run ?bl cs)" using d by (rule disabled_gc_run)
  have "fst (order_for_group_commit (gc_run ?bl cs) thd2 ht2) = 1"
    using s by (simp add: order_for_group_commit_def)
  with r d s show ?thesis by simp
qed

theorem ticket_rollover_disables_witness:
  "fst (order_for_group_commit (sample_log\<lparr>next_ticket := - 1\<rparr>) sample_thd (Some True)) = 1 \<and>
   \<not> group_commit_allowed (gc_run
       (fst (snd (order_for_group_commit (sample_log\<lparr>next_ticket := - 1\<rparr>) sample_thd
          (Some True))))
       [Increment (sample_thd\<lparr>ticket := - 1\<rparr>), Order sample_thd (Some True)])"
proof -
  have h: "ticket sample_thd = 0" "group_commit_allowed (sample_log\<lparr>next_ticket := - 1\<rparr>)"
    "force_binlog_order (sample_log\<lparr>next_ticket := - 1\<rparr>)"
    "next_ticket (sample_log\<lparr>next_ticket := - 1\<rparr>) + 1 = 0"
    by (simp_all add: sample_defs)
  show ?thesis
    using ticket_rollover_disables [OF h(1) h(2) h(3) refl h(4),
      of "[Increment (sample_thd\<lparr>ticket := - 1\<rparr>), Order sample_thd (Some True)]"]
    by simp
qed

section \<open>Rollback to a savepoint\<close>

lemma my_b_write_cache_keeps:
  assumes "my_b_write_cache bs c = Some c'"
  shows "unat (pos c) \<le> unat (pos c') \<and> (\<forall>i<unat (pos c). store c' i = store c i)"
proof -
  from assms have le: "unat (pos c) + length bs \<le> unat (end_of_file c)"
    and c': "c' = c\<lparr>store := (\<lambda>i. if unat (pos c) \<le> i \<and> i < unat (pos c) + length bs
                                   then bs ! (i - unat (pos c)) else store c i),
                  pos := pos c + of_nat (length bs)\<rparr>"
    by (auto simp add: my_b_write_cache_def split: if_splits)
  have "unat (end_of_file c) < 2 ^ 64" using unsigned_less [of "end_of_file c"] by simp
  with le have lt: "unat (pos c) + length bs < 2 ^ 64" by simp
  then have "length bs < 2 ^ 64" by simp
  then have "unat (of_nat (length bs) :: 64 word) = length bs"
    by (simp add: unat_of_nat)
  with lt have "unat (pos c + of_nat (length bs)) = unat (pos c) + length bs"
    by (simp add: unat_add_lem [THEN iffD1])
  with c' show ?thesis by simp
qed

lemma length_cache_bytes: "length (cache_bytes c) = unat (pos c)"
  by (simp add: cache_bytes_def)

lemma cache_bytes_append_store:
  assumes "cache_bytes c' = cache_bytes c @ xs"
  shows "unat (pos c) \<le> unat (pos c') \<and> (\<forall>i<unat (pos c). store c' i = store c i)"
proof -
  from assms have "length (cache_bytes c') = length (cache_bytes c) + length xs" by simp
  then have le: "unat (pos c) \<le> unat (pos c')" by (simp add: length_cache_bytes)
  have "store c' i = store c i" if i: "i < unat (pos c)" for i
  proof -
    from i le have "store c' i = cache_bytes c' ! i" by (simp add: cache_bytes_def)
    also have "\<dots> = (cache_bytes c @ xs) ! i" by (simp only: assms)
    also have "\<dots> = store c i" using i by (simp add: nth_append cache_bytes_def)
    finally show ?thesis .
  qed
  with le show ?thesis by simp
qed

text \<open>
  The writes of the serialised events only append to the cache; when none fails they have
  appended all the bytes, and none fails when the cache has room for all of them.
\<close>

lemma write_events_bytes:
  "write_events bss c = (e, c') \<Longrightarrow>
     end_of_file c' = end_of_file c \<and>
     (\<exists>xs. cache_bytes c' = cache_bytes c @ xs \<and> (\<not> e \<longrightarrow> xs = concat bss))"
proof (induction bss arbitrary: c)
  case Nil
  then show ?case by simp
next
  case (Cons bs bss)
  show ?case
  proof (cases "my_b_write_cache bs c")
    case None
    with Cons.prems show ?thesis by simp
  next
    case (Some c1)
    with Cons.prems have "write_events bss c1 = (e, c')" by simp
    from Cons.IH [OF this] obtain xs where x: "end_of_file c' = end_of_file c1"
      "cache_bytes c' = cache_bytes c1 @ xs" "\<not> e \<longrightarrow> xs = concat bss" by auto
    from x my_b_write_cache_bytes [OF Some] my_b_write_cache_store [OF Some]
    have "end_of_file c' = end_of_file c \<and> cache_bytes c' = cache_bytes c @ (bs @ xs) \<and>
          (\<not> e \<longrightarrow> bs @ xs = concat (bs # bss))" by simp
    then show ?thesis by blast
  qed
qed

lemma write_events_room:
  "unat (pos c) + length (concat bss) \<le> unat (end_of_file c) \<Longrightarrow>
     fst (write_events bss c) = False"
proof (induction bss arbitrary: c)
  case Nil
  then show ?case by simp
next
  case (Cons bs bss)
  from Cons.prems have "unat (pos c) + length bs \<le> unat (end_of_file c)" by simp
  then obtain c1 where c1: "my_b_write_cache bs c = Some c1"
    by (simp add: my_b_write_cache_def)
  from my_b_write_cache_pos [OF c1] my_b_write_cache_store [OF c1] Cons.prems
  have "unat (pos c1) + length (concat bss) \<le> unat (end_of_file c1)" by simp
  from Cons.IH [OF this] c1 show ?case by simp
qed

text \<open>
  \<open>MYSQL_BIN_LOG::write(Log_event *)\<close> on the cache: it only appends to the cache; the
  marker of the event is among the actions exactly when the call returns 0 for a session
  with \<open>OPTION_BIN_LOG\<close> outside a union; a call that returns 0 has done nothing inside a
  union, and otherwise has found the log open and appended the pending rows and, with
  \<open>OPTION_BIN_LOG\<close>, the context events and the event; and the call returns 0 when the log
  is open, no I/O fails and the cache has room for these bytes.
\<close>

lemma bin_log_write_event_effect:
  assumes w: "bin_log_write_event env bl thd ev ctx evb = (e, bl', thd', acts)"
  shows "(\<exists>xs. cache_bytes (trans_log (trx_data thd'))
                 = cache_bytes (trans_log (trx_data thd)) @ xs) \<and>
         ((Bin_log_write ev \<in> set acts) = (\<not> e \<and> OPTION_BIN_LOG thd \<and> \<not> do_union thd)) \<and>
         (\<not> e \<longrightarrow>
            (if do_union thd then thd' = thd \<and> bl' = bl \<and> acts = []
             else log_is_open bl \<and> bl' = bl \<and>
                  cache_bytes (trans_log (trx_data thd'))
                    = cache_bytes (trans_log (trx_data thd)) @ flushed_rows (trx_data thd)
                        @ (if OPTION_BIN_LOG thd then concat ctx @ evb else []))) \<and>
         (log_is_open bl \<and> \<not> flush_pending_fails env \<and> \<not> log_io_fails env \<and>
          \<not> rotate_fails env \<and>
          unat (pos (trans_log (trx_data thd)))
            + length (flushed_rows (trx_data thd) @ concat ctx @ evb)
            \<le> unat (end_of_file (trans_log (trx_data thd))) \<longrightarrow> \<not> e)"
proof (cases "do_union thd")
  case True
  with w show ?thesis by (auto simp add: bin_log_write_event_def)
next
  case nu: False
  obtain f blf thdf facts
    where fl: "flush_and_set_pending_rows_event env bl thd None = (f, blf, thdf, facts)"
    by (cases "flush_and_set_pending_rows_event env bl thd None") auto
  note fe = flush_pending_effect [OF fl, of undefined ev]
  let ?c = "trans_log (trx_data thd)"
  let ?room = "log_is_open bl \<and> \<not> flush_pending_fails env \<and> \<not> log_io_fails env \<and>
          \<not> rotate_fails env \<and>
          unat (pos ?c) + length (flushed_rows (trx_data thd) @ concat ctx @ evb)
            \<le> unat (end_of_file ?c)"
  have f0: "f = 0" if ?room
    using flush_pending_room [of env thd bl None] that fl by simp
  show ?thesis
  proof (cases "f = 0")
    case False
    with w nu fl have r: "e" "thd' = thdf" "acts = facts"
      by (auto simp add: bin_log_write_event_def binlog_flush_pending_rows_event_def)
    from False fe r f0 show ?thesis by auto
  next
    case True
    with fe have blf: "blf = bl" and ob: "OPTION_BIN_LOG thdf = OPTION_BIN_LOG thd"
      and ef: "end_of_file (trans_log (trx_data thdf)) = end_of_file ?c"
      and cb: "cache_bytes (trans_log (trx_data thdf))
                 = cache_bytes ?c @ flushed_rows (trx_data thd)"
      and nb: "Bin_log_write ev \<notin> set facts" by auto
    show ?thesis
    proof (cases "log_is_open bl")
      case False
      with w nu fl True blf have r: "e" "thd' = thdf" "acts = facts"
        by (auto simp add: bin_log_write_event_def binlog_flush_pending_rows_event_def)
      from r cb nb False show ?thesis by auto
    next
      case op: True
      show ?thesis
      proof (cases "OPTION_BIN_LOG thd")
        case False
        with w nu fl True blf op ob have r: "\<not> e" "bl' = bl" "thd' = thdf" "acts = facts"
          by (auto simp add: bin_log_write_event_def binlog_flush_pending_rows_event_def)
        from r cb nb False nu op show ?thesis by simp
      next
        case bin: True
        let ?d1 = "binlog_start_trans_and_stmt (trx_data thdf)"
        have t1: "trans_log ?d1 = trans_log (trx_data thdf)"
          by (simp add: binlog_start_trans_and_stmt_def)
        obtain we c where we: "write_events (ctx @ [evb]) (trans_log ?d1) = (we, c)"
          by (cases "write_events (ctx @ [evb]) (trans_log ?d1)") auto
        from write_events_bytes [OF we] t1 cb obtain xs
          where xs: "cache_bytes c = cache_bytes ?c @ flushed_rows (trx_data thd) @ xs"
            "\<not> we \<longrightarrow> xs = concat ctx @ evb"
          by auto
        have room: "\<not> we" if ?room
        proof -
          from cb have "unat (pos (trans_log (trx_data thdf)))
                          = unat (pos ?c) + length (flushed_rows (trx_data thd))"
            using length_cache_bytes [of "trans_log (trx_data thdf)"]
            by (simp add: length_cache_bytes)
          with that ef t1
          have "unat (pos (trans_log ?d1)) + length (concat (ctx @ [evb]))
                  \<le> unat (end_of_file (trans_log ?d1))" by simp
          from write_events_room [OF this] we show ?thesis by simp
        qed
        show ?thesis
        proof (cases we)
          case True
          obtain b t where sw: "set_write_error env blf (thdf\<lparr>trx_data := ?d1\<lparr>trans_log := c\<rparr>\<rparr>)
                                  = (b, t)"
            by (cases "set_write_error env blf (thdf\<lparr>trx_data := ?d1\<lparr>trans_log := c\<rparr>\<rparr>)") auto
          with w nu fl \<open>f = 0\<close> blf op ob bin we True
          have r: "e" "thd' = t" "acts = facts"
            by (auto simp add: bin_log_write_event_def binlog_flush_pending_rows_event_def
                Let_def)
          from set_write_error_keeps [OF sw] r have "trans_log (trx_data thd') = c" by simp
          with r xs nb room True show ?thesis by auto
        next
          case False
          with w nu fl \<open>f = 0\<close> blf op ob bin we
          have r: "\<not> e" "bl' = bl" "thd' = thdf\<lparr>trx_data := ?d1\<lparr>trans_log := c\<rparr>\<rparr>"
            "acts = facts @ [Bin_log_write ev]"
            by (auto simp add: bin_log_write_event_def binlog_flush_pending_rows_event_def
                Let_def)
          from r xs False nu op bin show ?thesis by simp
        qed
      qed
    qed
  qed
qed

lemma cache_step_inv:
  assumes "unat sv \<le> unat (pos (trans_log d))"
    and "\<forall>i<unat sv. store (trans_log d) i = f i"
    and "\<forall>p\<in>set (truncate_targets [c]). sv \<le> p"
  shows "unat sv \<le> unat (pos (trans_log (cache_step mx d c))) \<and>
         (\<forall>i<unat sv. store (trans_log (cache_step mx d c)) i = f i)"
proof (cases c)
  case (Cache_write bs)
  show ?thesis
  proof (cases "my_b_write_cache bs (trans_log d)")
    case None
    with Cache_write assms show ?thesis by simp
  next
    case (Some c')
    from my_b_write_cache_keeps [OF Some] Cache_write Some assms show ?thesis by auto
  qed
next
  case (Cache_set_pending p)
  with assms show ?thesis by (simp add: set_pending_def)
next
  case (Cache_truncate p)
  with assms have "unat sv \<le> unat p" by (simp add: word_le_nat_alt)
  with Cache_truncate assms show ?thesis
    by (simp add: truncate_cache_def set_pending_def reinit_io_cache_write_def Let_def)
qed

lemma truncate_targets_Cons:
  "set (truncate_targets (c # cs)) = set (truncate_targets [c]) \<union> set (truncate_targets cs)"
  by (cases c) simp_all

lemma cache_run_inv:
  "unat sv \<le> unat (pos (trans_log d)) \<Longrightarrow>
   \<forall>i<unat sv. store (trans_log d) i = f i \<Longrightarrow>
   \<forall>p\<in>set (truncate_targets cs). sv \<le> p \<Longrightarrow>
   unat sv \<le> unat (pos (trans_log (cache_run mx d cs))) \<and>
   (\<forall>i<unat sv. store (trans_log (cache_run mx d cs)) i = f i)"
proof (induction cs arbitrary: d)
  case Nil
  then show ?case by (simp add: cache_run_def)
next
  case (Cons c cs)
  from Cons.prems(3) have a: "\<forall>p\<in>set (truncate_targets [c]). sv \<le> p"
    and b: "\<forall>p\<in>set (truncate_targets cs). sv \<le> p"
    by (auto simp add: truncate_targets_Cons [of c cs])
  from cache_step_inv [OF Cons.prems(1) Cons.prems(2) a, of mx]
  have "unat sv \<le> unat (pos (trans_log (cache_step mx d c)))"
    and "\<forall>i<unat sv. store (trans_log (cache_step mx d c)) i = f i" by auto
  from Cons.IH [OF this b] show ?case by (simp add: cache_run_def)
qed

text \<open>The sample sessions after the savepoint is set and after the later calls.\<close>

lemma sample_thd1_fields:
  "\<not> do_union sample_thd1 \<and> OPTION_BIN_LOG sample_thd1 \<and> lex_ident sample_thd1 = ''s1'' \<and>
   \<not> all_modified_non_trans_table sample_thd1 \<and> \<not> OPTION_KEEP_LOG sample_thd1"
  by (simp add: sample_thd1_def binlog_savepoint_set_def bin_log_write_event_def
        binlog_flush_pending_rows_event_def flush_and_set_pending_rows_event_def
        binlog_trans_log_savepos_def binlog_start_trans_and_stmt_def
        my_b_write_cache_def pending_def set_pending_def my_b_tell_def position_def
        Let_def sample_defs split: prod.splits)

lemma sample_thd2_cache:
  "pending (trx_data sample_thd2) = None \<and> position (trx_data sample_thd2) = 6 \<and>
   end_of_file (trans_log (trx_data sample_thd2)) = 100"
  by (simp add: sample_thd2_def cache_run_def sample_calls_def truncate_cache_def
      set_pending_def pending_def position_def my_b_tell_def reinit_io_cache_write_def
      Let_def)

text \<open>
  C6, as the claim states it: a rollback to a savepoint in a transaction that has updated
  a non-transactional table writes a ROLLBACK TO record. In the sample session with
  \<open>OPTION_BIN_LOG\<close> clear, and in the one inside a union of events, the call returns 0 and
  has written nothing: no action, and the cache holds the bytes it held. In the sample
  session whose cache has no room for the record the call returns 1, and the cache holds
  the bytes it held.
\<close>

theorem savepoint_rollback_no_record:
  "trans_has_updated_non_trans_table sample_thd_no_bin_log \<and>
   fst (binlog_savepoint_rollback sample_env 100 sample_log sample_thd_no_bin_log 5 False
          [] [4, 5]) = 0 \<and>
   actions_of (binlog_savepoint_rollback sample_env 100 sample_log sample_thd_no_bin_log 5
          False [] [4, 5]) = [] \<and>
   cache_bytes (trans_log (trx_data (fst (snd (snd
       (binlog_savepoint_rollback sample_env 100 sample_log sample_thd_no_bin_log 5 False
          [] [4, 5]))))))
     = cache_bytes (trans_log (trx_data sample_thd_no_bin_log)) \<and>
   trans_has_updated_non_trans_table sample_thd_union \<and>
   binlog_savepoint_rollback sample_env 100 sample_log sample_thd_union 5 False [] [4, 5]
     = (0, sample_log, sample_thd_union, []) \<and>
   trans_has_updated_non_trans_table sample_thd3 \<and>
   fst (binlog_savepoint_rollback sample_env 100 sample_log sample_thd3 5 False []
          (replicate 95 0)) = 1 \<and>
   actions_of (binlog_savepoint_rollback sample_env 100 sample_log sample_thd3 5 False []
          (replicate 95 0)) = [] \<and>
   cache_bytes (trans_log (trx_data (fst (snd (snd
       (binlog_savepoint_rollback sample_env 100 sample_log sample_thd3 5 False []
          (replicate 95 0)))))))
     = cache_bytes (trans_log (trx_data sample_thd3))"
proof -
  have n: "trans_has_updated_non_trans_table sample_thd_no_bin_log"
      "trans_has_updated_non_trans_table sample_thd_union"
    by (simp_all add: trans_has_updated_non_trans_table_def sample_thd_no_bin_log_def
        sample_thd_union_def sample_thd3_def)
  have u: "do_union sample_thd_union" "\<not> do_union sample_thd_no_bin_log"
      "\<not> OPTION_BIN_LOG sample_thd_no_bin_log"
    using sample_thd1_fields
    by (simp_all add: sample_thd_no_bin_log_def sample_thd_union_def sample_thd3_def
        sample_thd2_def)
  have pn: "pending (trx_data sample_thd_no_bin_log) = None"
    using sample_thd2_cache by (simp add: sample_thd_no_bin_log_def sample_thd3_def pending_def)
  have o: "log_is_open sample_log" by (simp add: sample_defs)
  have a: "binlog_savepoint_rollback sample_env 100 sample_log sample_thd_union 5 False
             [] [4, 5] = (0, sample_log, sample_thd_union, [])"
    using n u by (simp add: binlog_savepoint_rollback_def bin_log_write_event_def)
  have b: "binlog_savepoint_rollback sample_env 100 sample_log sample_thd_no_bin_log 5 False
             [] [4, 5]
           = (0, sample_log,
              sample_thd_no_bin_log\<lparr>trx_data :=
                 set_pending None (trx_data sample_thd_no_bin_log)\<rparr>, [])"
    using n u pn o
    by (simp add: binlog_savepoint_rollback_def bin_log_write_event_def
        binlog_flush_pending_rows_event_def flush_and_set_pending_rows_event_def Let_def)
  have n3: "trans_has_updated_non_trans_table sample_thd3"
    by (simp add: trans_has_updated_non_trans_table_def sample_thd3_def)
  have u3: "\<not> do_union sample_thd3" "OPTION_BIN_LOG sample_thd3"
    using sample_thd1_fields by (simp_all add: sample_thd3_def sample_thd2_def)
  have g3: "pending (trx_data sample_thd3) = None"
      "pos (trans_log (trx_data sample_thd3)) = 6"
      "end_of_file (trans_log (trx_data sample_thd3)) = 100"
    using sample_thd2_cache
    by (simp_all add: sample_thd3_def pending_def position_def my_b_tell_def)
  have c: "fst (binlog_savepoint_rollback sample_env 100 sample_log sample_thd3 5 False []
             (replicate 95 0)) = 1 \<and>
           actions_of (binlog_savepoint_rollback sample_env 100 sample_log sample_thd3 5
             False [] (replicate 95 0)) = [] \<and>
           cache_bytes (trans_log (trx_data (fst (snd (snd
             (binlog_savepoint_rollback sample_env 100 sample_log sample_thd3 5 False []
                (replicate 95 0)))))))
             = cache_bytes (trans_log (trx_data sample_thd3))"
    using n3 u3 g3 o
    by (simp add: binlog_savepoint_rollback_def bin_log_write_event_def
        binlog_flush_pending_rows_event_def flush_and_set_pending_rows_event_def
        binlog_start_trans_and_stmt_def set_pending_def my_b_write_cache_def
        set_write_error_def my_error_def actions_of_def Let_def split: prod.splits)
  from n n3 a c show ?thesis unfolding b by (simp add: actions_of_def set_pending_def)
qed


text \<open>
  C6, amended. A savepoint is set in any session state; the session then writes events,
  replaces its pending rows event and truncates to positions not below the savepoint; then
  it rolls back to the savepoint (the query string is built). If the transaction has
  updated a non-transactional table or \<open>OPTION_KEEP_LOG\<close> is set, every byte cached before
  is still in the cache, at its place; the ROLLBACK TO event is written exactly when the
  call returns 0 for a session with \<open>OPTION_BIN_LOG\<close> outside a union of events; a call
  that returns 0 has, inside a union, changed nothing, and otherwise has appended to the
  cache the pending rows event and, with \<open>OPTION_BIN_LOG\<close>, the context events and the
  ROLLBACK TO record, in this order and nothing else; and the call returns 0 when the log
  is open, no I/O fails and the cache has room for these bytes. Otherwise the cache is
  truncated to the saved position and its bytes are those it had when the savepoint was
  set.
\<close>

theorem savepoint_rollback_restores:
  assumes set: "binlog_savepoint_set env bl thd0 af ctx evb = (r, sv, bl1, thd1, acts)"
    and tg: "\<forall>p\<in>set (truncate_targets cs). sv \<le> p"
    and run: "trx_data thd2 = cache_run mx (trx_data thd1) cs"
    and rb: "binlog_savepoint_rollback env2 mx bl2 thd2 sv False ctx2 evb2
               = (r', bl3, thd3, acts')"
  shows "(if trans_has_updated_non_trans_table thd2 \<or> OPTION_KEEP_LOG thd2
          then take (unat (position (trx_data thd2))) (cache_bytes (trans_log (trx_data thd3)))
                 = cache_bytes (trans_log (trx_data thd2)) \<and>
               ((Bin_log_write (Query_log_event (''ROLLBACK TO `'' @ lex_ident thd2 @ ''`''))
                    \<in> set acts')
                  = (r' = 0 \<and> OPTION_BIN_LOG thd2 \<and> \<not> do_union thd2)) \<and>
               (r' = 0 \<longrightarrow>
                  (if do_union thd2 then thd3 = thd2 \<and> bl3 = bl2 \<and> acts' = []
                   else log_is_open bl2 \<and> bl3 = bl2 \<and>
                        cache_bytes (trans_log (trx_data thd3))
                          = cache_bytes (trans_log (trx_data thd2))
                              @ flushed_rows (trx_data thd2)
                              @ (if OPTION_BIN_LOG thd2 then concat ctx2 @ evb2 else []))) \<and>
               (log_is_open bl2 \<and> \<not> flush_pending_fails env2 \<and> \<not> log_io_fails env2 \<and>
                \<not> rotate_fails env2 \<and>
                unat (position (trx_data thd2))
                  + length (flushed_rows (trx_data thd2) @ concat ctx2 @ evb2)
                  \<le> unat (end_of_file (trans_log (trx_data thd2))) \<longrightarrow> r' = 0)
          else r' = 0 \<and> acts' = [] \<and> bl3 = bl2 \<and>
               thd3 = thd2\<lparr>trx_data := truncate_cache mx sv (trx_data thd2)\<rparr> \<and>
               position (trx_data thd3) = sv \<and>
               cache_bytes (trans_log (trx_data thd3)) = cache_bytes (trans_log (trx_data thd0)))"
proof (cases "trans_has_updated_non_trans_table thd2 \<or> OPTION_KEEP_LOG thd2")
  case True
  let ?q = "Query_log_event (''ROLLBACK TO `'' @ lex_ident thd2 @ ''`'')"
  obtain e b t a where w: "bin_log_write_event env2 bl2 thd2 ?q ctx2 evb2 = (e, b, t, a)"
    by (cases "bin_log_write_event env2 bl2 thd2 ?q ctx2 evb2") auto
  with rb True have eq: "(r' = 0) = (\<not> e)" "bl3 = b" "thd3 = t" "acts' = a"
    by (auto simp add: binlog_savepoint_rollback_def)
  note we = bin_log_write_event_effect [OF w]
  from we obtain xs where "cache_bytes (trans_log (trx_data t))
                              = cache_bytes (trans_log (trx_data thd2)) @ xs" by blast
  then have tk: "take (unat (position (trx_data thd2))) (cache_bytes (trans_log (trx_data thd3)))
                 = cache_bytes (trans_log (trx_data thd2))"
    using eq by (simp add: position_def my_b_tell_def length_cache_bytes [symmetric])
  from we eq tk True show ?thesis
    by (simp add: position_def my_b_tell_def)
next
  case False
  have sv: "sv = pos (trans_log (trx_data thd0))"
    using set by (auto simp add: binlog_savepoint_set_def binlog_trans_log_savepos_def
        position_def my_b_tell_def Let_def split: if_splits prod.splits)
  have k1: "unat sv \<le> unat (pos (trans_log (trx_data thd1))) \<and>
        (\<forall>i<unat sv. store (trans_log (trx_data thd1)) i = store (trans_log (trx_data thd0)) i)"
  proof (cases af)
    case True
    with set sv show ?thesis by (simp add: binlog_savepoint_set_def Let_def)
  next
    case False
    let ?q = "Query_log_event (''SAVEPOINT `'' @ lex_ident thd0 @ ''`'')"
    obtain e b t a where w: "bin_log_write_event env bl thd0 ?q ctx evb = (e, b, t, a)"
      by (cases "bin_log_write_event env bl thd0 ?q ctx evb") auto
    with set False have t: "thd1 = t" by (simp add: binlog_savepoint_set_def Let_def)
    from bin_log_write_event_effect [OF w] obtain xs
      where "cache_bytes (trans_log (trx_data t)) = cache_bytes (trans_log (trx_data thd0)) @ xs"
      by blast
    from cache_bytes_append_store [OF this] t sv show ?thesis by simp
  qed
  then have a: "unat sv \<le> unat (pos (trans_log (trx_data thd1)))"
    and b: "\<forall>i<unat sv. store (trans_log (trx_data thd1)) i = store (trans_log (trx_data thd0)) i"
    by auto
  from cache_run_inv [OF a b tg, of mx] run
  have k2: "\<forall>i<unat sv. store (trans_log (trx_data thd2)) i = store (trans_log (trx_data thd0)) i"
    by simp
  from rb False have t3: "thd3 = thd2\<lparr>trx_data := truncate_cache mx sv (trx_data thd2)\<rparr>"
    and r0: "r' = 0" "acts' = []" "bl3 = bl2"
    by (auto simp add: binlog_savepoint_rollback_def binlog_trans_log_truncate_def)
  have p3: "pos (trans_log (trx_data thd3)) = sv" and s3: "store (trans_log (trx_data thd3)) = store (trans_log (trx_data thd2))"
    using t3 by (simp_all add: truncate_cache_def set_pending_def reinit_io_cache_write_def Let_def)
  have "cache_bytes (trans_log (trx_data thd3)) = cache_bytes (trans_log (trx_data thd0))"
    unfolding cache_bytes_def p3 s3 using k2 sv by simp
  with False t3 r0 p3 show ?thesis by (simp add: position_def my_b_tell_def)
qed

theorem savepoint_rollback_restores_witness:
  "position (trx_data (fst (snd (snd
     (binlog_savepoint_rollback sample_env 100 sample_log sample_thd2 5 False [] [4, 5])))))
     = 5 \<and>
   cache_bytes (trans_log (trx_data (fst (snd (snd
     (binlog_savepoint_rollback sample_env 100 sample_log sample_thd2 5 False [] [4, 5]))))))
     = cache_bytes (trans_log (trx_data sample_thd)) \<and>
   fst (binlog_savepoint_rollback sample_env 100 sample_log sample_thd3 5 False [] [4, 5])
     = 0 \<and>
   Bin_log_write (Query_log_event ''ROLLBACK TO `s1`'')
     \<in> set (actions_of
         (binlog_savepoint_rollback sample_env 100 sample_log sample_thd3 5 False [] [4, 5])) \<and>
   cache_bytes (trans_log (trx_data (fst (snd (snd
     (binlog_savepoint_rollback sample_env 100 sample_log sample_thd3 5 False [] [4, 5]))))))
     = cache_bytes (trans_log (trx_data sample_thd3)) @ [4, 5]"
proof -
  let ?S = "binlog_savepoint_set sample_env sample_log sample_thd False [] [1, 2, 3]"
  let ?R = "binlog_savepoint_rollback sample_env 100 sample_log sample_thd2 5 False [] [4, 5]"
  let ?W = "binlog_savepoint_rollback sample_env 100 sample_log sample_thd3 5 False [] [4, 5]"
  have sv: "fst (snd ?S) = 5"
    by (simp add: binlog_savepoint_set_def binlog_trans_log_savepos_def position_def
        my_b_tell_def Let_def sample_defs split: prod.splits)
  have h1: "?S = (fst ?S, 5, fst (snd (snd ?S)), sample_thd1, snd (snd (snd (snd ?S))))"
    unfolding sample_thd1_def sv [symmetric] by simp
  have h2: "\<forall>p\<in>set (truncate_targets sample_calls). (5 :: my_off_t) \<le> p"
    by (simp add: sample_calls_def)
  have h3: "trx_data sample_thd2 = cache_run 100 (trx_data sample_thd1) sample_calls"
    by (simp add: sample_thd2_def)
  have h3': "trx_data sample_thd3 = cache_run 100 (trx_data sample_thd1) sample_calls"
    by (simp add: sample_thd3_def sample_thd2_def)
  have h4: "?R = (fst ?R, fst (snd ?R), fst (snd (snd ?R)), snd (snd (snd ?R)))" by simp
  have h4': "?W = (fst ?W, fst (snd ?W), fst (snd (snd ?W)), actions_of ?W)"
    by (simp add: actions_of_def)
  have c: "\<not> (trans_has_updated_non_trans_table sample_thd2 \<or> OPTION_KEEP_LOG sample_thd2)"
    using sample_thd1_fields
    by (simp add: trans_has_updated_non_trans_table_def sample_thd2_def)
  have c': "trans_has_updated_non_trans_table sample_thd3 \<or> OPTION_KEEP_LOG sample_thd3"
    by (simp add: trans_has_updated_non_trans_table_def sample_thd3_def)
  have f: "\<not> do_union sample_thd3" "OPTION_BIN_LOG sample_thd3" "lex_ident sample_thd3 = ''s1''"
    using sample_thd1_fields by (simp_all add: sample_thd3_def sample_thd2_def)
  have g: "flushed_rows (trx_data sample_thd3) = []"
      "position (trx_data sample_thd3) = 6"
      "end_of_file (trans_log (trx_data sample_thd3)) = 100"
    using sample_thd2_cache
    by (simp_all add: sample_thd3_def flushed_rows_def pending_def position_def)
  have e: "log_is_open sample_log" "\<not> flush_pending_fails sample_env"
      "\<not> log_io_fails sample_env" "\<not> rotate_fails sample_env"
    by (simp_all add: sample_defs)
  note r = savepoint_rollback_restores [OF h1 h2 h3 h4, unfolded if_not_P [OF c]]
  note w = savepoint_rollback_restores [OF h1 h2 h3' h4', unfolded if_P [OF c']]
  from w f g e have "fst ?W = 0" by simp
  with w f g have "Bin_log_write (Query_log_event ''ROLLBACK TO `s1`'') \<in> set (actions_of ?W)"
    and "cache_bytes (trans_log (trx_data (fst (snd (snd ?W)))))
           = cache_bytes (trans_log (trx_data sample_thd3)) @ [4, 5]"
    by simp_all
  with r \<open>fst ?W = 0\<close> show ?thesis by blast
qed

section \<open>Recovery: the valid position and the trimming of the file\<close>

text \<open>
  C2, as the claim states it: \<open>valid_pos\<close> moves to the end of an event exactly when the
  scan is outside a transaction after the event. An event read with \<open>log->error\<close> set,
  outside a transaction, leaves \<open>valid_pos\<close> where it was.
\<close>

theorem recover_step_log_error_keeps_valid_pos:
  "recover_step \<lparr>in_transaction = False, valid_pos = 100, xids = []\<rparr>
     \<lparr>ev_type = OTHER_EVENT, ev_end = 200, ev_log_error = True, ev_insert_fails = False\<rparr>
     = Some \<lparr>in_transaction = False, valid_pos = 100, xids = []\<rparr> \<and>
   \<not> in_transaction \<lparr>in_transaction = False, valid_pos = 100, xids = []\<rparr> \<and>
   valid_pos \<lparr>in_transaction = False, valid_pos = 100, xids = []\<rparr>
     \<noteq> ev_end \<lparr>ev_type = OTHER_EVENT, ev_end = 200, ev_log_error = True,
                ev_insert_fails = False\<rparr>"
  by (simp add: recover_step_def)

text \<open>
  C2, amended. After each event of the scan, \<open>valid_pos\<close> is the offset just past the event
  exactly when \<open>log->error\<close> is not set and the scan is outside a transaction, and is
  unchanged otherwise; and the file is cut only to \<open>valid_pos\<close> and only when that is
  positive and strictly below the size of the file.
\<close>

theorem recover_valid_pos_and_trim:
  "(recover_step st e = Some st' \<longrightarrow>
      valid_pos st' =
        (if \<not> ev_log_error e \<and> \<not> in_transaction st' then ev_end e else valid_pos st)) \<and>
   (open_recover_trim i = (r, vp, acts) \<and> Chsize p \<in> set acts \<longrightarrow>
      p = vp \<and> 0 < vp \<and> vp < binlog_size i)"
proof -
  have a: "recover_step st e = Some st' \<longrightarrow>
      valid_pos st' =
        (if \<not> ev_log_error e \<and> \<not> in_transaction st' then ev_end e else valid_pos st)"
    by (auto simp add: recover_step_def Let_def split: if_splits event_type.splits)
  have b: "open_recover_trim i = (r, vp, acts) \<and> Chsize p \<in> set acts \<longrightarrow>
      p = vp \<and> 0 < vp \<and> vp < binlog_size i"
    by (auto simp add: open_recover_trim_def Let_def split: if_splits prod.splits)
  from a b show ?thesis by simp
qed

theorem recover_valid_pos_and_trim_witness:
  "valid_pos (the (recover_step \<lparr>in_transaction = True, valid_pos = 100, xids = []\<rparr>
      \<lparr>ev_type = XID_EVENT 7, ev_end = 200, ev_log_error = False, ev_insert_fails = False\<rparr>))
     = 200 \<and>
   open_recover_trim \<lparr>in_use = True, fde_end = 100, fdle_valid = True, hash_fails = False,
      events = [\<lparr>ev_type = XID_EVENT 7, ev_end = 200, ev_log_error = False,
                 ev_insert_fails = False\<rparr>,
                \<lparr>ev_type = QUERY_EVENT ''BEGIN'', ev_end = 260, ev_log_error = False,
                 ev_insert_fails = False\<rparr>],
      ha_fails = False, binlog_size = 300, my_open_fails = False, my_chsize_fails = False,
      my_pwrite_fails = False\<rparr> = (0, 200, [Chsize 200, Clear_IN_USE]) \<and>
   (200 :: my_off_t) < 300"
proof -
  let ?st = "\<lparr>in_transaction = True, valid_pos = 100, xids = []\<rparr>"
  let ?e = "\<lparr>ev_type = XID_EVENT 7, ev_end = 200, ev_log_error = False,
             ev_insert_fails = False\<rparr>"
  let ?i = "\<lparr>in_use = True, fde_end = 100, fdle_valid = True, hash_fails = False,
      events = [?e, \<lparr>ev_type = QUERY_EVENT ''BEGIN'', ev_end = 260, ev_log_error = False,
                 ev_insert_fails = False\<rparr>],
      ha_fails = False, binlog_size = 300, my_open_fails = False, my_chsize_fails = False,
      my_pwrite_fails = False\<rparr>"
  have h1: "recover_step ?st ?e = Some \<lparr>in_transaction = False, valid_pos = 200, xids = [7]\<rparr>"
    by (simp add: recover_step_def)
  have h2: "open_recover_trim ?i = (0, 200, [Chsize 200, Clear_IN_USE])"
    by (simp add: open_recover_trim_def recover_def recover_step_def)
  show ?thesis
    using recover_valid_pos_and_trim
      [of ?st ?e "\<lparr>in_transaction = False, valid_pos = 200, xids = [7]\<rparr>" ?i 0 200
          "[Chsize 200, Clear_IN_USE]" 200]
      h1 h2
    by simp
qed

section \<open>Rotation and the counter of prepared XIDs\<close>




section \<open>The copy rewrites \<open>end_log_pos\<close> and nothing else\<close>

lemma length_int4store [simp]: "length (int4store b i v) = length b"
  by (simp add: int4store_def)

lemma int4store_append1:
  "i + 3 < length b \<Longrightarrow> int4store (b @ x) i v = int4store b i v @ x"
  by (simp add: int4store_def list_update_append1)

lemma int4store_append2:
  "int4store (p @ b) (length p + i) v = p @ int4store b i v"
  by (simp add: int4store_def list_update_append add.assoc)

lemma uint4korr_append1:
  "i + 3 < length b \<Longrightarrow> uint4korr (b @ x) i = uint4korr b i"
  by (simp add: uint4korr_def nth_append)

lemma uint4korr_append2:
  "uint4korr (p @ b) (length p + i) = uint4korr b i"
  by (simp add: uint4korr_def nth_append add.assoc)

lemma uint4korr_int4store_other:
  "j + 4 \<le> i \<or> i + 4 \<le> j \<Longrightarrow> uint4korr (int4store b i v) j = uint4korr b j"
  by (auto simp add: uint4korr_def int4store_def)

lemma uint4korr_take:
  "i + 3 < n \<Longrightarrow> uint4korr (take n b) i = uint4korr b i"
  by (simp add: uint4korr_def)

lemma take_int4store:
  "take n (int4store b i v) = int4store (take n b) i v"
  by (simp add: int4store_def take_update_swap)

lemma drop_int4store:
  "i + 3 < n \<Longrightarrow> drop n (int4store b i v) = drop n b"
  by (simp add: int4store_def)

lemma byte_of_nat: "unat (of_nat v :: byte) = v mod 256"
  by (simp add: unat_of_nat)

lemma le_bytes:
  fixes v :: nat
  assumes "v < 2 ^ 32"
  shows "v mod 256 + 256 * (v div 256 mod 256) + 65536 * (v div 65536 mod 256)
           + 16777216 * (v div 16777216 mod 256) = v"
proof -
  define A where "A = v mod 256"
  define B where "B = v div 256 mod 256"
  define C where "C = v div 256 div 256 mod 256"
  define D where "D = v div 256 div 256 div 256"
  have d2: "v div 65536 = v div 256 div 256"
    using div_mult2_eq [of v 256 256] by simp
  have d3: "v div 16777216 = v div 256 div 256 div 256"
    using div_mult2_eq [of v 65536 256] d2 by simp
  have top: "D < 256"
  proof -
    have "v div 16777216 < 256" using assms by (simp add: less_mult_imp_div_less)
    with d3 show ?thesis by (simp add: D_def)
  qed
  define w where "w = v div 256"
  define x where "x = v div 256 div 256"
  have s1: "v = A + 256 * w" by (simp add: A_def w_def)
  have s2: "w = B + 256 * x" by (simp add: B_def w_def x_def)
  have s3: "x = C + 256 * D" by (simp add: C_def D_def x_def)
  have s4: "D mod 256 = D" using top by simp
  have F: "A + 256 * (B + 256 * (C + 256 * D)) = v"
    unfolding s1 s2 s3 by (rule refl)
  have "v mod 256 + 256 * (v div 256 mod 256) + 65536 * (v div 65536 mod 256)
           + 16777216 * (v div 16777216 mod 256)
        = A + 256 * B + 65536 * C + 16777216 * (D mod 256)"
    unfolding d2 d3 A_def B_def C_def D_def by (rule refl)
  also have "\<dots> = A + 256 * B + 65536 * C + 16777216 * D" unfolding s4 by (rule refl)
  also have "\<dots> = A + 256 * (B + 256 * (C + 256 * D))" by (simp add: algebra_simps)
  also have "\<dots> = v" by (rule F)
  finally show ?thesis .
qed

lemma uint4korr_int4store_same:
  assumes "i + 3 < length b" and "v < 2 ^ 32"
  shows "uint4korr (int4store b i v) i = v"
proof -
  have "uint4korr (int4store b i v) i =
          v mod 256 + 256 * (v div 256 mod 256) + 65536 * (v div 65536 mod 256)
           + 16777216 * (v div 16777216 mod 256)"
    using assms(1) by (simp add: uint4korr_def int4store_def byte_of_nat)
  also have "\<dots> = v" using assms(2) by (rule le_bytes)
  finally show ?thesis .
qed

lemma fills_step:
  assumes "f \<noteq> []" and "splice_header grp st f = Inr (st1, seg1)"
  shows "write_cache_fills grp st (f # fs) =
           after_headers grp st1 fs
             (fix_headers grp seg1 (hdr_offs st1) (length f) (carry st1) (header st1))"
proof (cases "fix_headers grp seg1 (hdr_offs st1) (length f) (carry st1) (header st1)")
  case None
  with assms show ?thesis
    by (simp add: write_cache_segment_def after_headers_def)
next
  case (Some r)
  show ?thesis
  proof (cases r)
    case (Inl e)
    with Some assms show ?thesis
      by (simp add: write_cache_segment_def after_headers_def)
  next
    case (Inr t)
    obtain buf ho len c h where t: "t = (buf, ho, len, c, h)"
      by (cases t) auto
    show ?thesis
    proof (cases "finish_segment st1 (buf, (ho + 2 ^ 32 - len) mod 2 ^ 32, len, c, h)")
      case (Inl e)
      with Some Inr t assms show ?thesis
        by (simp add: write_cache_segment_def after_headers_def)
    next
      case (Inr st')
      with Some \<open>r = Inr t\<close> t assms show ?thesis
        by (simp add: write_cache_segment_def after_headers_def)
    qed
  qed
qed

lemma splice_header_no_carry: "carry st = 0 \<Longrightarrow> splice_header grp st f = Inr (st, f)"
  by (simp add: splice_header_def)

lemma fix_headers_exit:
  "\<not> ho < len \<Longrightarrow> fix_headers grp buf ho len c h = Some (Inr (buf, ho, len, c, h))"
  by (subst fix_headers.simps) simp

lemma fix_headers_partial:
  assumes "ho < len" and "len < ho + LOG_EVENT_HEADER_LEN" and "ho + LOG_EVENT_HEADER_LEN < 2 ^ 32"
  shows "fix_headers grp buf ho len c h =
           Some (Inr (buf, ho, ho, len - ho,
                      take (len - ho) (drop ho buf) @ drop (len - ho) h))"
proof -
  have m: "(ho + LOG_EVENT_HEADER_LEN) mod 4294967296 = ho + LOG_EVENT_HEADER_LEN"
    using assms(3) by simp
  show ?thesis
    using assms(1,2)
    by (subst fix_headers.simps) (simp add: m fix_headers_exit)
qed

lemma fix_headers_full:
  assumes "ho < len" and "ho + LOG_EVENT_HEADER_LEN \<le> len" and "len \<le> length buf"
    and "len < 2 ^ 32"
  shows "fix_headers grp buf ho len c h =
           fix_headers grp
             (int4store buf (ho + LOG_POS_OFFSET)
                ((uint4korr buf (ho + LOG_POS_OFFSET) + grp) mod 2 ^ 32))
             ((ho + uint4korr buf (ho + EVENT_LEN_OFFSET)) mod 2 ^ 32) len c h"
proof -
  have m: "(ho + LOG_EVENT_HEADER_LEN) mod 4294967296 = ho + LOG_EVENT_HEADER_LEN"
    using assms(2,4) by simp
  have o: "uint4korr (int4store buf (ho + LOG_POS_OFFSET) v) (ho + EVENT_LEN_OFFSET)
             = uint4korr buf (ho + EVENT_LEN_OFFSET)" for v
    by (rule uint4korr_int4store_other) (simp add: LOG_POS_OFFSET_def EVENT_LEN_OFFSET_def)
  show ?thesis
    using assms(1,2,3)
    by (subst fix_headers.simps) (simp add: m o Let_def)
qed

lemma header_in_buf:
  assumes "buf @ x = p @ e @ y" and "ho = length p" and "ho + k \<le> length buf"
    and "k \<le> length e"
  shows "take k (drop ho buf) = take k e"
proof -
  have "take k (drop ho buf) = take k (drop ho (buf @ x))"
    using assms(3) by simp
  also have "\<dots> = take k (e @ y)" using assms(1,2) by simp
  also have "\<dots> = take k e" using assms(4) by simp
  finally show ?thesis .
qed

lemma uint4korr_drop:
  "ho + i + 3 < length b \<Longrightarrow> uint4korr (drop ho b) i = uint4korr b (ho + i)"
  by (simp add: uint4korr_def add.assoc)

lemma uint4korr_in_buf:
  assumes "buf @ x = p @ e @ y" and "ho = length p"
    and "ho + LOG_EVENT_HEADER_LEN \<le> length buf" and "LOG_EVENT_HEADER_LEN \<le> length e"
    and "i + 3 < LOG_EVENT_HEADER_LEN"
  shows "uint4korr buf (ho + i) = uint4korr e i"
proof -
  have "uint4korr buf (ho + i) = uint4korr (drop ho buf) i"
    using assms(3,5) by (simp add: uint4korr_drop)
  also have "\<dots> = uint4korr (take LOG_EVENT_HEADER_LEN (drop ho buf)) i"
    using assms(5) by (simp add: uint4korr_take)
  also have "\<dots> = uint4korr (take LOG_EVENT_HEADER_LEN e) i"
    using header_in_buf [OF assms(1,2,3,4)] by simp
  also have "\<dots> = uint4korr e i" using assms(5) by (simp add: uint4korr_take)
  finally show ?thesis .
qed

lemma wf_event_length: "wf_event e \<Longrightarrow> LOG_EVENT_HEADER_LEN \<le> length e"
  by (simp add: wf_event_def)

lemma length_fix_event [simp]: "length (fix_event grp e) = length e"
  by (simp add: fix_event_def)

lemma drop_fix_event: "drop LOG_EVENT_HEADER_LEN (fix_event grp e) = drop LOG_EVENT_HEADER_LEN e"
  by (simp add: fix_event_def drop_int4store LOG_EVENT_HEADER_LEN_def LOG_POS_OFFSET_def)

lemma splice_header_carry:
  assumes c: "0 < carry st" "carry st < LOG_EVENT_HEADER_LEN"
    and h: "take (carry st) (header st) = take (carry st) e"
    and f: "take (LOG_EVENT_HEADER_LEN - carry st) f
              = take (LOG_EVENT_HEADER_LEN - carry st) (drop (carry st) e)"
           "LOG_EVENT_HEADER_LEN - carry st \<le> length f"
    and e: "wf_event e" "length e < 2 ^ 32"
    and l: "log_file st = (out, room)" "carry st \<le> room"
  shows "splice_header grp st f =
           Inr (st\<lparr>log_file := (out @ take (carry st) (fix_event grp e), room - carry st),
                    header := take LOG_EVENT_HEADER_LEN (fix_event grp e),
                    hdr_offs := length e - carry st, carry := 0\<rparr>,
                drop (carry st) (take LOG_EVENT_HEADER_LEN (fix_event grp e))
                  @ drop (LOG_EVENT_HEADER_LEN - carry st) f)"
proof -
  let ?H = LOG_EVENT_HEADER_LEN
  let ?c = "carry st"
  define header1 where "header1 = take ?c (header st) @ take (?H - ?c) f"
  define header2 where
    "header2 = int4store header1 LOG_POS_OFFSET
                 ((uint4korr header1 LOG_POS_OFFSET + grp) mod 2 ^ 32)"
  have le: "?H \<le> length e" using e(1) by (rule wf_event_length)
  have sp: "splice_header grp st f =
      (case log_file_write (take ?c header2) (log_file st) of
         None \<Rightarrow> Inl Error_on_write
       | Some fl \<Rightarrow>
           Inr (st\<lparr>log_file := fl, header := header2,
                    hdr_offs := (uint4korr header2 EVENT_LEN_OFFSET + 2 ^ 32 - ?c) mod 2 ^ 32,
                    carry := 0\<rparr>,
                drop ?c header2 @ drop (?H - ?c) f))"
    unfolding splice_header_def Let_def header1_def header2_def
    using c(1) f(2) by simp
  have h1: "header1 = take ?H e"
  proof -
    have "take ?c e @ take (?H - ?c) (drop ?c e) = take (?c + (?H - ?c)) e"
      by (simp add: take_add)
    with c(2) h f(1) show ?thesis by (simp add: header1_def)
  qed
  have v: "uint4korr (take ?H e) LOG_POS_OFFSET = uint4korr e LOG_POS_OFFSET"
    by (simp add: uint4korr_take LOG_EVENT_HEADER_LEN_def LOG_POS_OFFSET_def)
  have h2: "header2 = take ?H (fix_event grp e)"
    unfolding header2_def h1 v fix_event_def by (simp add: take_int4store)
  have el: "uint4korr (take ?H (fix_event grp e)) EVENT_LEN_OFFSET = length e"
  proof -
    have "uint4korr (take ?H (fix_event grp e)) EVENT_LEN_OFFSET
            = uint4korr (fix_event grp e) EVENT_LEN_OFFSET"
      by (simp add: uint4korr_take LOG_EVENT_HEADER_LEN_def EVENT_LEN_OFFSET_def)
    also have "\<dots> = uint4korr e EVENT_LEN_OFFSET"
      unfolding fix_event_def
      by (rule uint4korr_int4store_other) (simp add: LOG_POS_OFFSET_def EVENT_LEN_OFFSET_def)
    finally show ?thesis using e(1) by (simp add: wf_event_def)
  qed
  have ho: "(length e + 2 ^ 32 - ?c) mod 2 ^ 32 = length e - ?c"
  proof -
    have "?c \<le> length e" using c(2) le by simp
    then have "length e + 2 ^ 32 - ?c = (length e - ?c) + 2 ^ 32" by simp
    then have "(length e + 2 ^ 32 - ?c) mod 2 ^ 32 = ((length e - ?c) + 2 ^ 32) mod 2 ^ 32"
      by (rule arg_cong)
    also have "\<dots> = (length e - ?c) mod 2 ^ 32" by (rule mod_add_self2)
    also have "\<dots> = length e - ?c"
    proof (rule mod_less)
      show "length e - ?c < 2 ^ 32" using e(2) by (rule less_imp_diff_less)
    qed
    finally show ?thesis .
  qed
  have tk: "take ?c (take ?H (fix_event grp e)) = take ?c (fix_event grp e)"
    using c(2) by (simp add: min_def)
  have w: "log_file_write (take ?c (fix_event grp e)) (out, room)
             = Some (out @ take ?c (fix_event grp e), room - ?c)"
    using l(2) c(2) le by (simp add: log_file_write_def min_def)
  show ?thesis
    unfolding sp h2 el ho tk l(1) w by (simp only: option.case)
qed


lemma sub_mod:
  fixes a b :: nat
  assumes "b \<le> a" and "a < 2 ^ 32"
  shows "(a + 2 ^ 32 - b) mod 2 ^ 32 = a - b"
proof -
  from assms(1) have "a + 2 ^ 32 - b = (a - b) + 2 ^ 32" by simp
  then have "(a + 2 ^ 32 - b) mod 2 ^ 32 = ((a - b) + 2 ^ 32) mod 2 ^ 32"
    by (rule arg_cong)
  also have "\<dots> = (a - b) mod 2 ^ 32" by (rule mod_add_self2)
  also have "\<dots> = a - b"
  proof (rule mod_less)
    show "a - b < 2 ^ 32" using assms(2) by (rule less_imp_diff_less)
  qed
  finally show ?thesis .
qed

lemma concat_wf_nonempty:
  "\<forall>e\<in>set evs. wf_event e \<Longrightarrow> concat evs = [] \<Longrightarrow> evs = []"
  by (cases evs) (auto simp add: wf_event_def LOG_EVENT_HEADER_LEN_def)

lemma finish_segment_ok:
  assumes "log_file st = (out, room)" and "len \<le> room" and "len \<le> length buf"
  shows "finish_segment st (buf, ho, len, c, h) =
           Inr (st\<lparr>log_file := (out @ take len buf, room - len), carry := c,
                    hdr_offs := ho, header := h\<rparr>)"
  using assms by (simp add: finish_segment_def log_file_write_def)

lemma after_headers_Some:
  assumes "r = Some (Inr (buf, ho, len, c, h))"
    and "(ho + 2 ^ 32 - len) mod 2 ^ 32 = ho'"
    and "finish_segment st (buf, ho', len, c, h) = Inr st1"
  shows "after_headers grp st fills r = write_cache_fills grp st1 fills"
  unfolding after_headers_def assms(1) by (simp only: option.case sum.case prod.case assms(2,3))

lemma segs_ok_Cons: "segs_ok (f # fs) \<Longrightarrow> f \<noteq> [] \<and> segs_ok fs"
  by (cases fs) (auto simp add: LOG_EVENT_HEADER_LEN_def)

lemma segs_ok_Cons_long: "segs_ok (f # fs) \<Longrightarrow> fs \<noteq> [] \<Longrightarrow> LOG_EVENT_HEADER_LEN \<le> length f"
  by (cases fs) auto


lemma run_exit:
  assumes nlt: "\<not> ho < length buf" and ho: "ho < 2 ^ 32"
    and lf: "log_file st = (out, room)" and rm: "length buf \<le> room"
  shows "after_headers grp st fills (fix_headers grp buf ho (length buf) 0 h) =
           write_cache_fills grp
             (st\<lparr>log_file := (out @ buf, room - length buf), carry := 0,
                 hdr_offs := ho - length buf, header := h\<rparr>) fills"
proof -
  have fh: "fix_headers grp buf ho (length buf) 0 h = Some (Inr (buf, ho, length buf, 0, h))"
    using nlt by (rule fix_headers_exit)
  have md: "(ho + 2 ^ 32 - length buf) mod 2 ^ 32 = ho - length buf"
    using nlt ho by (intro sub_mod) simp_all
  have fin: "finish_segment st (buf, ho - length buf, length buf, 0, h) =
               Inr (st\<lparr>log_file := (out @ buf, room - length buf), carry := 0,
                        hdr_offs := ho - length buf, header := h\<rparr>)"
    using finish_segment_ok [OF lf rm, of buf "ho - length buf" 0 h] by simp
  show ?thesis by (rule after_headers_Some [OF fh md fin])
qed

lemma run_partial:
  assumes lt: "ho < length buf" and part: "length buf < ho + LOG_EVENT_HEADER_LEN"
    and bd: "ho + LOG_EVENT_HEADER_LEN < 2 ^ 32"
    and lf: "log_file st = (out, room)" and rm: "length buf \<le> room"
  shows "after_headers grp st fills (fix_headers grp buf ho (length buf) 0 h) =
           write_cache_fills grp
             (st\<lparr>log_file := (out @ take ho buf, room - ho), carry := length buf - ho,
                 hdr_offs := 0,
                 header := take (length buf - ho) (drop ho buf) @ drop (length buf - ho) h\<rparr>)
             fills"
proof -
  let ?h = "take (length buf - ho) (drop ho buf) @ drop (length buf - ho) h"
  have fh: "fix_headers grp buf ho (length buf) 0 h =
              Some (Inr (buf, ho, ho, length buf - ho, ?h))"
    using lt part bd by (rule fix_headers_partial)
  have "ho < 2 ^ 32" using bd by simp
  then have md: "(ho + 2 ^ 32 - ho) mod 2 ^ 32 = 0"
    using sub_mod [of ho ho] by simp
  have fin: "finish_segment st (buf, 0, ho, length buf - ho, ?h) =
               Inr (st\<lparr>log_file := (out @ take ho buf, room - ho), carry := length buf - ho,
                        hdr_offs := 0, header := ?h\<rparr>)"
    using lt rm by (intro finish_segment_ok [OF lf]) simp_all
  show ?thesis by (rule after_headers_Some [OF fh md fin])
qed

lemma run_full:
  assumes eq: "buf @ x = p @ e @ y" and hp: "ho = length p"
    and full: "ho + LOG_EVENT_HEADER_LEN \<le> length buf"
    and wf: "wf_event e" and bd: "length buf + length e < 2 ^ 32"
  shows "fix_headers grp buf ho (length buf) 0 h =
           fix_headers grp
             (int4store buf (ho + LOG_POS_OFFSET)
                ((uint4korr e LOG_POS_OFFSET + grp) mod 2 ^ 32))
             (ho + length e) (length buf) 0 h"
    and "int4store buf (ho + LOG_POS_OFFSET) ((uint4korr e LOG_POS_OFFSET + grp) mod 2 ^ 32) @ x
           = (p @ fix_event grp e) @ y"
proof -
  let ?H = LOG_EVENT_HEADER_LEN
  have le: "?H \<le> length e" using wf by (rule wf_event_length)
  have H: "?H = 19" by (simp add: LOG_EVENT_HEADER_LEN_def)
  have v13: "uint4korr buf (ho + LOG_POS_OFFSET) = uint4korr e LOG_POS_OFFSET"
    by (rule uint4korr_in_buf [OF eq hp full le])
       (simp add: LOG_POS_OFFSET_def LOG_EVENT_HEADER_LEN_def)
  have v9: "uint4korr buf (ho + EVENT_LEN_OFFSET) = length e"
  proof -
    have "uint4korr buf (ho + EVENT_LEN_OFFSET) = uint4korr e EVENT_LEN_OFFSET"
      by (rule uint4korr_in_buf [OF eq hp full le])
         (simp add: EVENT_LEN_OFFSET_def LOG_EVENT_HEADER_LEN_def)
    with wf show ?thesis by (simp add: wf_event_def)
  qed
  have lt: "ho < length buf" using full H by simp
  have l32: "length buf < 2 ^ 32" using bd by simp
  have "ho + length e < 2 ^ 32" using lt bd by simp
  then have md: "(ho + length e) mod 2 ^ 32 = ho + length e" by (rule mod_less)
  show "fix_headers grp buf ho (length buf) 0 h =
           fix_headers grp
             (int4store buf (ho + LOG_POS_OFFSET)
                ((uint4korr e LOG_POS_OFFSET + grp) mod 2 ^ 32))
             (ho + length e) (length buf) 0 h"
    using fix_headers_full [OF lt full order_refl l32, of grp 0 h]
    unfolding v13 v9 md .
  let ?v = "(uint4korr e LOG_POS_OFFSET + grp) mod 2 ^ 32"
  have "int4store buf (ho + LOG_POS_OFFSET) ?v @ x = int4store (buf @ x) (ho + LOG_POS_OFFSET) ?v"
    using full H by (simp add: int4store_append1 LOG_POS_OFFSET_def)
  also have "\<dots> = int4store (p @ (e @ y)) (length p + LOG_POS_OFFSET) ?v"
    using eq hp by simp
  also have "\<dots> = p @ int4store (e @ y) LOG_POS_OFFSET ?v"
    by (rule int4store_append2)
  also have "int4store (e @ y) LOG_POS_OFFSET ?v = int4store e LOG_POS_OFFSET ?v @ y"
    using le H by (simp add: int4store_append1 LOG_POS_OFFSET_def)
  finally show "int4store buf (ho + LOG_POS_OFFSET) ?v @ x = (p @ fix_event grp e) @ y"
    by (simp add: fix_event_def)
qed


lemma drop_take_drop:
  "c \<le> n \<Longrightarrow> n \<le> length xs \<Longrightarrow> drop c (take n xs) @ drop n xs = drop c xs"
  using drop_append [of c "take n xs" "drop n xs"] by simp

lemma run_carry:
  assumes c: "0 < carry st1" "carry st1 < LOG_EVENT_HEADER_LEN"
    and h: "take (carry st1) (header st1) = take (carry st1) e"
    and str: "f @ x = drop (carry st1) e @ y"
    and lfl: "LOG_EVENT_HEADER_LEN - carry st1 \<le> length f" and fne: "f \<noteq> []"
    and wf: "wf_event e" "length e < 2 ^ 32"
    and l: "log_file st1 = (out, room)" "carry st1 \<le> room"
  shows "write_cache_fills grp st1 (f # fs) =
           after_headers grp
             (st1\<lparr>log_file := (out @ take (carry st1) (fix_event grp e), room - carry st1),
                  header := take LOG_EVENT_HEADER_LEN (fix_event grp e),
                  hdr_offs := length e - carry st1, carry := 0\<rparr>) fs
             (fix_headers grp
                (drop (carry st1) (take LOG_EVENT_HEADER_LEN (fix_event grp e))
                   @ drop (LOG_EVENT_HEADER_LEN - carry st1) f)
                (length e - carry st1)
                (length (drop (carry st1) (take LOG_EVENT_HEADER_LEN (fix_event grp e))
                   @ drop (LOG_EVENT_HEADER_LEN - carry st1) f))
                0 (take LOG_EVENT_HEADER_LEN (fix_event grp e)))"
    and "(drop (carry st1) (take LOG_EVENT_HEADER_LEN (fix_event grp e))
            @ drop (LOG_EVENT_HEADER_LEN - carry st1) f) @ x
           = drop (carry st1) (fix_event grp e) @ y"
    and "length (drop (carry st1) (take LOG_EVENT_HEADER_LEN (fix_event grp e))
            @ drop (LOG_EVENT_HEADER_LEN - carry st1) f) = length f"
proof -
  let ?H = LOG_EVENT_HEADER_LEN
  let ?c = "carry st1"
  let ?fe = "fix_event grp e"
  let ?seg1 = "drop ?c (take ?H ?fe) @ drop (?H - ?c) f"
  have le: "?H \<le> length e" using wf(1) by (rule wf_event_length)
  have tf: "take (?H - ?c) f = take (?H - ?c) (drop ?c e)"
  proof -
    have "take (?H - ?c) f = take (?H - ?c) (f @ x)" using lfl by simp
    also have "\<dots> = take (?H - ?c) (drop ?c e @ y)" using str by simp
    also have "\<dots> = take (?H - ?c) (drop ?c e)" using le by simp
    finally show ?thesis .
  qed
  have sp: "splice_header grp st1 f =
              Inr (st1\<lparr>log_file := (out @ take ?c ?fe, room - ?c),
                       header := take ?H ?fe, hdr_offs := length e - ?c, carry := 0\<rparr>, ?seg1)"
    by (rule splice_header_carry [OF c h tf lfl wf l])
  show len: "length ?seg1 = length f" using lfl c(2) le by simp
  show "write_cache_fills grp st1 (f # fs) =
           after_headers grp
             (st1\<lparr>log_file := (out @ take ?c ?fe, room - ?c),
                  header := take ?H ?fe, hdr_offs := length e - ?c, carry := 0\<rparr>) fs
             (fix_headers grp ?seg1 (length e - ?c) (length ?seg1) 0 (take ?H ?fe))"
    unfolding len using fills_step [OF fne sp, of fs] by simp
  have "?seg1 @ x = drop ?c (take ?H ?fe) @ drop (?H - ?c) (f @ x)"
    using lfl by simp
  also have "drop (?H - ?c) (f @ x) = drop (?H - ?c) (drop ?c e) @ y"
    unfolding str using le by simp
  also have "drop (?H - ?c) (drop ?c e) = drop ?H e" using c(2) by simp
  also have "drop ?H e = drop ?H ?fe" by (simp add: drop_fix_event)
  also have "drop ?c (take ?H ?fe) @ drop ?H ?fe @ y = drop ?c ?fe @ y"
    using drop_take_drop [of ?c ?H ?fe] c(2) le by simp
  finally show "?seg1 @ x = drop ?c ?fe @ y" .
qed


lemma run_segments:
  "\<lbrakk>length evs + length fills = n; buf @ concat fills = p @ concat evs; length p = ho;
    ho < 2 ^ 32; \<forall>e\<in>set evs. wf_event e; segs_ok fills;
    \<forall>s\<in>set (buf # fills). length s \<le> M; \<forall>e\<in>set evs. M + length e < 2 ^ 32;
    log_file st = (out, room); length buf + length (concat fills) \<le> room\<rbrakk>
   \<Longrightarrow> \<exists>st'. after_headers grp st fills (fix_headers grp buf ho (length buf) 0 h)
                 = Some (Inr st') \<and>
          log_file st' = (out @ p @ concat (map (fix_event grp) evs),
                          room - (length buf + length (concat fills))) \<and>
          carry st' = 0"
proof (induction n arbitrary: buf p ho st h evs fills out room rule: less_induct)
  case (less n)
  note n = less.prems(1) and eq = less.prems(2) and hp = less.prems(3) and ho = less.prems(4)
    and wf = less.prems(5) and ok = less.prems(6) and M = less.prems(7) and bd = less.prems(8)
    and lf = less.prems(9) and rm = less.prems(10)
  let ?L = "length buf"
  let ?H = LOG_EVENT_HEADER_LEN
  have H: "?H = 19" by (simp add: LOG_EVENT_HEADER_LEN_def)
  have LM: "?L \<le> M" using M by simp
  have rmL: "?L \<le> room" using rm by simp
  show ?case
  proof (cases "ho < ?L")
    case False
    let ?st1 = "st\<lparr>log_file := (out @ buf, room - ?L), carry := 0,
                    hdr_offs := ho - ?L, header := h\<rparr>"
    have ah: "after_headers grp st fills (fix_headers grp buf ho ?L 0 h) =
                write_cache_fills grp ?st1 fills"
      by (rule run_exit [OF False ho lf rmL])
    have Lp: "?L \<le> length p" using False hp by simp
    have tp: "take ?L p = buf"
    proof -
      have "take ?L (buf @ concat fills) = buf" by simp
      moreover have "take ?L (p @ concat evs) = take ?L p" using Lp by simp
      ultimately show ?thesis using eq by simp
    qed
    show ?thesis
    proof (cases fills)
      case Nil
      with eq have be: "buf = p @ concat evs" by simp
      then have "length buf = length p + length (concat evs)" by (metis length_append)
      with Lp have "length (concat evs) = 0" by simp
      then have ce: "concat evs = []" by simp
      with be have pb: "p = buf" by simp
      from concat_wf_nonempty [OF wf ce] have "evs = []" .
      with Nil ah pb show ?thesis by simp
    next
      case (Cons f fs)
      from ok Cons have fne: "f \<noteq> []" and okfs: "segs_ok fs"
        using segs_ok_Cons by blast+
      have st: "write_cache_fills grp ?st1 (f # fs) =
                  after_headers grp ?st1 fs (fix_headers grp f (ho - ?L) (length f) 0 h)"
        using fills_step [OF fne splice_header_no_carry, of ?st1 grp fs] by simp
      have eq1: "f @ concat fs = drop ?L p @ concat evs"
      proof -
        have "drop ?L (buf @ concat fills) = f @ concat fs" using Cons by simp
        moreover have "drop ?L (p @ concat evs) = drop ?L p @ concat evs" using Lp by simp
        ultimately show ?thesis using eq by simp
      qed
      have "\<exists>st'. after_headers grp ?st1 fs (fix_headers grp f (ho - ?L) (length f) 0 h)
                 = Some (Inr st') \<and>
          log_file st' = ((out @ buf) @ drop ?L p @ concat (map (fix_event grp) evs),
                          (room - ?L) - (length f + length (concat fs))) \<and>
          carry st' = 0"
      proof (rule less.IH [of "length evs + length fs"])
        show "length evs + length fs < n" using n Cons by simp
        show "length evs + length fs = length evs + length fs" by (rule refl)
        show "f @ concat fs = drop ?L p @ concat evs" by (rule eq1)
        show "length (drop ?L p) = ho - ?L" using hp by simp
        show "ho - ?L < 2 ^ 32" using ho by (rule less_imp_diff_less)
        show "\<forall>e\<in>set evs. wf_event e" by (rule wf)
        show "segs_ok fs" by (rule okfs)
        show "\<forall>s\<in>set (f # fs). length s \<le> M" using M Cons by simp
        show "\<forall>e\<in>set evs. M + length e < 2 ^ 32" by (rule bd)
        show "log_file ?st1 = (out @ buf, room - ?L)" by simp
        show "length f + length (concat fs) \<le> room - ?L" using rm Cons by simp
      qed
      then obtain st' where
        r: "after_headers grp ?st1 fs (fix_headers grp f (ho - ?L) (length f) 0 h) = Some (Inr st')"
        and l': "log_file st' = ((out @ buf) @ drop ?L p @ concat (map (fix_event grp) evs),
                          (room - ?L) - (length f + length (concat fs)))"
        and c': "carry st' = 0" by blast
      have bp: "buf @ drop ?L p = p" using tp by (metis append_take_drop_id)
      have "(out @ buf) @ drop ?L p @ concat (map (fix_event grp) evs)
              = out @ (buf @ drop ?L p) @ concat (map (fix_event grp) evs)" by simp
      also have "\<dots> = out @ p @ concat (map (fix_event grp) evs)"
        unfolding bp by (rule refl)
      finally have o: "(out @ buf) @ drop ?L p @ concat (map (fix_event grp) evs)
              = out @ p @ concat (map (fix_event grp) evs)" .
      have "(room - ?L) - (length f + length (concat fs)) = room - (?L + length (concat fills))"
        using Cons by simp
      with l' o have "log_file st' = (out @ p @ concat (map (fix_event grp) evs),
                          room - (?L + length (concat fills)))"
        by simp
      with ah st r c' Cons show ?thesis by simp
    qed
  next
    case True
    have ne: "evs \<noteq> []"
    proof
      assume "evs = []"
      with eq have "length (buf @ concat fills) = length p" by simp
      with True hp show False by simp
    qed
    then obtain e evs' where evs: "evs = e # evs'" by (cases evs) auto
    have wfe: "wf_event e" and wf': "\<forall>e\<in>set evs'. wf_event e" using wf evs by simp_all
    have le: "?H \<le> length e" using wfe by (rule wf_event_length)
    have bde: "M + length e < 2 ^ 32" and bd': "\<forall>e\<in>set evs'. M + length e < 2 ^ 32"
      using bd evs by simp_all
    have eq2: "buf @ concat fills = p @ e @ concat evs'" using eq evs by simp
    show ?thesis
    proof (cases "ho + ?H \<le> ?L")
      case full: True
      let ?buf' = "int4store buf (ho + LOG_POS_OFFSET)
                     ((uint4korr e LOG_POS_OFFSET + grp) mod 2 ^ 32)"
      have bl: "?L + length e < 2 ^ 32" using LM bde by simp
      note rf1 = run_full(1) [where grp = grp and h = h, OF eq2 hp [symmetric] full wfe bl]
      note rf2 = run_full(2) [where grp = grp, OF eq2 hp [symmetric] full wfe bl]
      have "\<exists>st'. after_headers grp st fills
                      (fix_headers grp ?buf' (ho + length e) (length ?buf') 0 h)
                 = Some (Inr st') \<and>
          log_file st' = (out @ (p @ fix_event grp e) @ concat (map (fix_event grp) evs'),
                          room - (length ?buf' + length (concat fills))) \<and>
          carry st' = 0"
      proof (rule less.IH [of "length evs' + length fills"])
        show "length evs' + length fills < n" using n evs by simp
        show "length evs' + length fills = length evs' + length fills" by (rule refl)
        show "?buf' @ concat fills = (p @ fix_event grp e) @ concat evs'" by (rule rf2)
        show "length (p @ fix_event grp e) = ho + length e" using hp by simp
        show "ho + length e < 2 ^ 32" using True bl by simp
        show "\<forall>e\<in>set evs'. wf_event e" by (rule wf')
        show "segs_ok fills" by (rule ok)
        show "\<forall>s\<in>set (?buf' # fills). length s \<le> M" using M by simp
        show "\<forall>e\<in>set evs'. M + length e < 2 ^ 32" by (rule bd')
        show "log_file st = (out, room)" by (rule lf)
        show "length ?buf' + length (concat fills) \<le> room" using rm by simp
      qed
      then show ?thesis using rf1 evs by simp
    next
      case part: False
      let ?c = "?L - ho"
      let ?h' = "take ?c (drop ho buf) @ drop ?c h"
      let ?st1 = "st\<lparr>log_file := (out @ take ho buf, room - ho), carry := ?c,
                      hdr_offs := 0, header := ?h'\<rparr>"
      have c: "0 < ?c" "?c < ?H" using True part by simp_all
      have b32: "ho + ?H < 2 ^ 32" using True LM bde le by simp
      have ah: "after_headers grp st fills (fix_headers grp buf ho ?L 0 h) =
                  write_cache_fills grp ?st1 fills"
        using part by (intro run_partial [OF True _ b32 lf rmL]) simp
      have tp: "take ho buf = p"
      proof -
        have "take ho (buf @ concat fills) = take ho buf" using True by simp
        moreover have "take ho (p @ e @ concat evs') = p" using hp by simp
        ultimately show ?thesis using eq2 by simp
      qed
      have dc: "drop ho buf = take ?c e"
      proof -
        have "take ?c (drop ho buf) = take ?c e"
          using c(2) le True by (intro header_in_buf [OF eq2 hp [symmetric]]) simp_all
        then show ?thesis by simp
      qed
      have fne': "fills \<noteq> []"
      proof
        assume "fills = []"
        with eq2 have "?L = length p + length e + length (concat evs')"
          by (metis append_Nil2 concat.simps(1) length_append add.assoc)
        with hp le part show False by simp
      qed
      then obtain f fs where fills: "fills = f # fs" by (cases fills) auto
      from ok fills have fne: "f \<noteq> []" and okfs: "segs_ok fs"
        using segs_ok_Cons by blast+
      have str: "f @ concat fs = drop ?c e @ concat evs'"
      proof -
        have "drop ?L (buf @ concat fills) = f @ concat fs" using fills by simp
        moreover have "drop ?L (p @ e @ concat evs') = drop ?c e @ concat evs'"
          using hp True c(2) le by simp
        ultimately show ?thesis using eq2 by simp
      qed
      have lfl: "?H - ?c \<le> length f"
      proof (cases fs)
        case Nil
        with str have "length f = length (drop ?c e) + length (concat evs')"
          by (metis append_Nil2 concat.simps(1) length_append)
        with le show ?thesis by simp
      next
        case (Cons g gs)
        with ok fills have "?H \<le> length f" using segs_ok_Cons_long by blast
        then show ?thesis by simp
      qed
      have e32: "length e < 2 ^ 32" using bde by simp
      have hk: "take (carry ?st1) (header ?st1) = take (carry ?st1) e"
        using dc c(2) le by simp
      have rc1: "0 < carry ?st1" and rc2: "carry ?st1 < ?H" using c by simp_all
      have rstr: "f @ concat fs = drop (carry ?st1) e @ concat evs'" using str by simp
      have rlfl: "?H - carry ?st1 \<le> length f" using lfl by simp
      have rl: "log_file ?st1 = (out @ take ho buf, room - ho)" by simp
      have rr: "carry ?st1 \<le> room - ho" using True rmL by simp
      note rca = run_carry(1) [where grp = grp and fs = fs, OF rc1 rc2 hk rstr rlfl fne wfe e32 rl rr]
      note rcb = run_carry(2) [where grp = grp, OF rc1 rc2 hk rstr rlfl fne wfe e32 rl rr]
      note rcc = run_carry(3) [where grp = grp, OF rc1 rc2 hk rstr rlfl fne wfe e32 rl rr]
      let ?fe = "fix_event grp e"
      let ?seg1 = "drop ?c (take ?H ?fe) @ drop (?H - ?c) f"
      let ?st2 = "?st1\<lparr>log_file := ((out @ take ho buf) @ take ?c ?fe, room - ho - ?c),
                       header := take ?H ?fe, hdr_offs := length e - ?c, carry := 0\<rparr>"
      have "\<exists>st'. after_headers grp ?st2 fs
                      (fix_headers grp ?seg1 (length e - ?c) (length ?seg1) 0 (take ?H ?fe))
                 = Some (Inr st') \<and>
          log_file st' = (((out @ take ho buf) @ take ?c ?fe) @ drop ?c ?fe
                             @ concat (map (fix_event grp) evs'),
                          (room - ho - ?c) - (length ?seg1 + length (concat fs))) \<and>
          carry st' = 0"
      proof (rule less.IH [of "length evs' + length fs"])
        show "length evs' + length fs < n" using n evs fills by simp
        show "length evs' + length fs = length evs' + length fs" by (rule refl)
        show "?seg1 @ concat fs = drop ?c ?fe @ concat evs'" using rcb by simp
        show "length (drop ?c ?fe) = length e - ?c" by simp
        show "length e - ?c < 2 ^ 32" using e32 by (rule less_imp_diff_less)
        show "\<forall>e\<in>set evs'. wf_event e" by (rule wf')
        show "segs_ok fs" by (rule okfs)
        show "\<forall>s\<in>set (?seg1 # fs). length s \<le> M" using M fills rcc by simp
        show "\<forall>e\<in>set evs'. M + length e < 2 ^ 32" by (rule bd')
        show "log_file ?st2 = ((out @ take ho buf) @ take ?c ?fe, room - ho - ?c)" by simp
        show "length ?seg1 + length (concat fs) \<le> room - ho - ?c"
          using rm fills rcc True by simp
      qed
      then obtain st' where
        r: "after_headers grp ?st2 fs
              (fix_headers grp ?seg1 (length e - ?c) (length ?seg1) 0 (take ?H ?fe))
              = Some (Inr st')"
        and l': "log_file st' = (((out @ take ho buf) @ take ?c ?fe) @ drop ?c ?fe
                             @ concat (map (fix_event grp) evs'),
                          (room - ho - ?c) - (length ?seg1 + length (concat fs)))"
        and c': "carry st' = 0" by blast
      have w: "write_cache_fills grp ?st1 (f # fs) = Some (Inr st')"
        using rca r by simp
      have "(room - ho - ?c) - (length ?seg1 + length (concat fs))
              = room - (?L + length (concat fills))"
        using rcc fills True by simp
      moreover have "((out @ take ho buf) @ take ?c ?fe) @ drop ?c ?fe
                             @ concat (map (fix_event grp) evs')
                      = out @ p @ concat (map (fix_event grp) evs)"
        using tp evs by simp
      ultimately have "log_file st' = (out @ p @ concat (map (fix_event grp) evs),
                          room - (?L + length (concat fills)))"
        using l' by simp
      with ah w c' fills show ?thesis by simp
    qed
  qed
qed


lemma fix_event_rewritten:
  assumes "wf_event e"
  shows "rewritten log_pos e (fix_event (log_pos mod 2 ^ 32) e)"
proof -
  have le: "LOG_POS_OFFSET + 3 < length e"
    using wf_event_length [OF assms] by (simp add: LOG_EVENT_HEADER_LEN_def LOG_POS_OFFSET_def)
  have m: "(uint4korr e LOG_POS_OFFSET + log_pos mod 2 ^ 32) mod 2 ^ 32
             = (uint4korr e LOG_POS_OFFSET + log_pos) mod 2 ^ 32"
    by (rule mod_add_right_eq)
  have "uint4korr (fix_event (log_pos mod 2 ^ 32) e) LOG_POS_OFFSET
          = (uint4korr e LOG_POS_OFFSET + log_pos mod 2 ^ 32) mod 2 ^ 32"
    unfolding fix_event_def by (rule uint4korr_int4store_same [OF le]) simp
  then have a: "uint4korr (fix_event (log_pos mod 2 ^ 32) e) LOG_POS_OFFSET
          = (uint4korr e LOG_POS_OFFSET + log_pos) mod 2 ^ 32"
    unfolding m .
  have b: "\<forall>i<length e. i < LOG_POS_OFFSET \<or> LOG_POS_OFFSET + 4 \<le> i
             \<longrightarrow> fix_event (log_pos mod 2 ^ 32) e ! i = e ! i"
    by (auto simp add: fix_event_def int4store_def)
  from a b show ?thesis unfolding rewritten_def by simp
qed

lemma write_cache_as_fills:
  "write_cache False False log_pos logf first fills =
     (case (case write_cache_segment (log_pos mod 2 ^ 32)
                   \<lparr>log_file = logf, carry = 0, hdr_offs = 0,
                     header = replicate LOG_EVENT_HEADER_LEN 0\<rparr> first of
              None \<Rightarrow> None
            | Some (Inl e) \<Rightarrow> Some (Inl e)
            | Some (Inr st1) \<Rightarrow> write_cache_fills (log_pos mod 2 ^ 32) st1 fills) of
        None \<Rightarrow> None
      | Some (Inl e) \<Rightarrow> Some (Inl e)
      | Some (Inr st2) \<Rightarrow> Some (Inr (log_file st2, carry st2)))"
  unfolding write_cache_def Let_def
  by (simp split: option.split sum.split)

text \<open>
  C1. A cache holds the serialised events \<open>evs\<close>, read in the segments \<open>first\<close> and
  \<open>fills\<close>, wherever the cuts fall, also inside a header; no segment is longer than the
  read buffer (\<open>M\<close> bytes). If the log file accepts the bytes, \<open>write_cache\<close> returns with
  no split header left, and what it has appended to the log file is the events in order,
  each with the position \<open>log_pos\<close> of the log file at the start of the copy added to its
  \<open>end_log_pos\<close> (modulo \<open>2 ^ 32\<close>) and every other byte, of the header and of the payload,
  as it was.
\<close>

theorem write_cache_rewrites_end_log_pos:
  assumes wf: "\<forall>e\<in>set evs. wf_event e"
    and segs: "first @ concat fills = concat evs"
    and ok: "segs_ok fills"
    and M: "\<forall>s\<in>set (first # fills). length s \<le> M"
    and bd: "\<forall>e\<in>set evs. M + length e < 2 ^ 32"
    and rm: "length (concat evs) \<le> room"
  shows "write_cache False False log_pos (out, room) first fills =
           Some (Inr ((out @ concat (map (fix_event (log_pos mod 2 ^ 32)) evs),
                       room - length (concat evs)), 0)) \<and>
         list_all2 (rewritten log_pos) evs (map (fix_event (log_pos mod 2 ^ 32)) evs)"
proof -
  define g where "g = log_pos mod 2 ^ 32"
  let ?st0 = "\<lparr>log_file = (out, room), carry = 0, hdr_offs = 0,
                header = replicate LOG_EVENT_HEADER_LEN 0\<rparr>"
  let ?W = "case write_cache_segment g ?st0 first of
              None \<Rightarrow> None
            | Some (Inl e) \<Rightarrow> Some (Inl e)
            | Some (Inr st1) \<Rightarrow> write_cache_fills g st1 fills"
  have tot: "length first + length (concat fills) = length (concat evs)"
    using segs by (metis length_append)
  have W: "\<exists>st'. ?W = Some (Inr st') \<and>
             log_file st' = (out @ concat (map (fix_event g) evs), room - length (concat evs)) \<and>
             carry st' = 0"
  proof (cases "first = []")
    case False
    have "?W = write_cache_fills g ?st0 (first # fills)" using False by simp
    also have "\<dots> = after_headers g ?st0 fills
                       (fix_headers g first 0 (length first) 0 (replicate LOG_EVENT_HEADER_LEN 0))"
      using fills_step [OF False splice_header_no_carry, of ?st0 g fills] by simp
    finally have e: "?W = after_headers g ?st0 fills
                       (fix_headers g first 0 (length first) 0 (replicate LOG_EVENT_HEADER_LEN 0))" .
    have "\<exists>st'. after_headers g ?st0 fills
                       (fix_headers g first 0 (length first) 0 (replicate LOG_EVENT_HEADER_LEN 0))
                 = Some (Inr st') \<and>
          log_file st' = (out @ [] @ concat (map (fix_event g) evs),
                          room - (length first + length (concat fills))) \<and>
          carry st' = 0"
    proof (rule run_segments [of evs fills "length evs + length fills"])
      show "length evs + length fills = length evs + length fills" by (rule refl)
      show "first @ concat fills = [] @ concat evs" using segs by simp
      show "length ([] :: byte list) = 0" by simp
      show "(0 :: nat) < 2 ^ 32" by simp
      show "\<forall>e\<in>set evs. wf_event e" by (rule wf)
      show "segs_ok fills" by (rule ok)
      show "\<forall>s\<in>set (first # fills). length s \<le> M" by (rule M)
      show "\<forall>e\<in>set evs. M + length e < 2 ^ 32" by (rule bd)
      show "log_file ?st0 = (out, room)" by simp
      show "length first + length (concat fills) \<le> room" using rm tot by simp
    qed
    then show ?thesis unfolding e tot by simp
  next
    case True
    have st0: "?st0\<lparr>log_file := (out, room), carry := 0, hdr_offs := 0,
                     header := replicate LOG_EVENT_HEADER_LEN 0\<rparr> = ?st0" by simp
    have "write_cache_segment g ?st0 first = Some (Inr ?st0)"
      using True
      by (simp add: write_cache_segment_def splice_header_def finish_segment_def
          log_file_write_def)
    then have e: "?W = write_cache_fills g ?st0 fills" by simp
    show ?thesis
    proof (cases fills)
      case Nil
      with segs True have "concat evs = []" by simp
      from concat_wf_nonempty [OF wf this] have "evs = []" .
      with e Nil show ?thesis by simp
    next
      case (Cons f fs)
      from ok Cons have fne: "f \<noteq> []" and okfs: "segs_ok fs"
        using segs_ok_Cons by blast+
      have "?W = write_cache_fills g ?st0 (f # fs)" using e Cons by (simp only:)
      also have "\<dots> = after_headers g ?st0 fs
                       (fix_headers g f 0 (length f) 0 (replicate LOG_EVENT_HEADER_LEN 0))"
        using fills_step [OF fne splice_header_no_carry, of ?st0 g fs] by simp
      finally have e2: "?W = after_headers g ?st0 fs
                       (fix_headers g f 0 (length f) 0 (replicate LOG_EVENT_HEADER_LEN 0))" .
      have "\<exists>st'. after_headers g ?st0 fs
                       (fix_headers g f 0 (length f) 0 (replicate LOG_EVENT_HEADER_LEN 0))
                 = Some (Inr st') \<and>
          log_file st' = (out @ [] @ concat (map (fix_event g) evs),
                          room - (length f + length (concat fs))) \<and>
          carry st' = 0"
      proof (rule run_segments [of evs fs "length evs + length fs"])
        show "length evs + length fs = length evs + length fs" by (rule refl)
        show "f @ concat fs = [] @ concat evs" using segs True Cons by simp
        show "length ([] :: byte list) = 0" by simp
        show "(0 :: nat) < 2 ^ 32" by simp
        show "\<forall>e\<in>set evs. wf_event e" by (rule wf)
        show "segs_ok fs" by (rule okfs)
        show "\<forall>s\<in>set (f # fs). length s \<le> M" using M Cons by simp
        show "\<forall>e\<in>set evs. M + length e < 2 ^ 32" by (rule bd)
        show "log_file ?st0 = (out, room)" by simp
        show "length f + length (concat fs) \<le> room" using rm tot True Cons by simp
      qed
      moreover have "length f + length (concat fs) = length (concat evs)"
        using tot True Cons by simp
      ultimately show ?thesis unfolding e2 by simp
    qed
  qed
  then obtain st' where w: "?W = Some (Inr st')"
    and l: "log_file st' = (out @ concat (map (fix_event g) evs), room - length (concat evs))"
    and c: "carry st' = 0" by blast
  have "write_cache False False log_pos (out, room) first fills =
          (case ?W of
             None \<Rightarrow> None
           | Some (Inl e) \<Rightarrow> Some (Inl e)
           | Some (Inr st2) \<Rightarrow> Some (Inr (log_file st2, carry st2)))"
    unfolding g_def by (rule write_cache_as_fills)
  then have r: "write_cache False False log_pos (out, room) first fills =
           Some (Inr ((out @ concat (map (fix_event g) evs), room - length (concat evs)), 0))"
    unfolding w using l c by simp
  have "\<forall>e\<in>set evs. rewritten log_pos e (fix_event g e)"
    unfolding g_def using wf fix_event_rewritten by blast
  then have "list_all2 (rewritten log_pos) evs (map (fix_event g) evs)"
    by (simp add: list_all2_map2 list_all2_same)
  with r show ?thesis unfolding g_def by (rule conjI)
qed


theorem write_cache_rewrites_end_log_pos_witness:
  "write_cache False False 1000 ([], 100) (take 25 (sample_ev1 @ sample_ev2))
     [drop 25 (sample_ev1 @ sample_ev2)] =
     Some (Inr (([1,1,1,1, 2, 3,3,3,3, 20,0,0,0, 252,3,0,0, 0,0, 77,
                  1,1,1,1, 2, 3,3,3,3, 21,0,0,0, 17,4,0,0, 0,0, 88, 99], 59), 0)) \<and>
   uint4korr sample_ev2 LOG_POS_OFFSET = 41 \<and>
   uint4korr (fix_event 1000 sample_ev2) LOG_POS_OFFSET = 1041"
proof -
  have wf: "\<forall>e\<in>set [sample_ev1, sample_ev2]. wf_event e"
    by (simp add: wf_event_def uint4korr_def sample_ev1_def sample_ev2_def
        LOG_EVENT_HEADER_LEN_def EVENT_LEN_OFFSET_def)
  have segs: "take 25 (sample_ev1 @ sample_ev2) @ concat [drop 25 (sample_ev1 @ sample_ev2)]
                = concat [sample_ev1, sample_ev2]"
    by (simp del: take_append drop_append)
  have ok: "segs_ok [drop 25 (sample_ev1 @ sample_ev2)]"
    by (simp add: sample_ev1_def sample_ev2_def)
  have M: "\<forall>s\<in>set (take 25 (sample_ev1 @ sample_ev2) # [drop 25 (sample_ev1 @ sample_ev2)]).
             length s \<le> 25"
    by (simp add: sample_ev1_def sample_ev2_def)
  have bd: "\<forall>e\<in>set [sample_ev1, sample_ev2]. 25 + length e < 2 ^ 32"
    by (simp add: sample_ev1_def sample_ev2_def)
  have rm: "length (concat [sample_ev1, sample_ev2]) \<le> 100"
    by (simp add: sample_ev1_def sample_ev2_def)
  have f1: "fix_event 1000 sample_ev1 =
              [1,1,1,1, 2, 3,3,3,3, 20,0,0,0, 252,3,0,0, 0,0, 77]"
    by (simp add: fix_event_def int4store_def uint4korr_def sample_ev1_def LOG_POS_OFFSET_def)
  have f2: "fix_event 1000 sample_ev2 =
              [1,1,1,1, 2, 3,3,3,3, 21,0,0,0, 17,4,0,0, 0,0, 88, 99]"
    by (simp add: fix_event_def int4store_def uint4korr_def sample_ev2_def LOG_POS_OFFSET_def)
  have l: "length (concat [sample_ev1, sample_ev2]) = 41"
    by (simp add: sample_ev1_def sample_ev2_def)
  have a: "uint4korr sample_ev2 LOG_POS_OFFSET = 41"
    by (simp add: uint4korr_def sample_ev2_def LOG_POS_OFFSET_def)
  have b: "uint4korr (fix_event 1000 sample_ev2) LOG_POS_OFFSET = 1041"
    unfolding f2 by (simp add: uint4korr_def LOG_POS_OFFSET_def)
  show ?thesis
    using write_cache_rewrites_end_log_pos [OF wf segs ok M bd rm, of 1000 "[]"] a b
    unfolding l by (simp add: f1 f2)
qed

section \<open>The cookie of \<open>TC_LOG_MMAP::log_xid\<close>\<close>

lemma find_slot_Some:
  "find_slot mem flen q0 = Some q \<Longrightarrow> q0 \<le> q \<and> q + sizeof_my_xid \<le> flen \<and> mem q = 0"
proof (induction mem flen q0 rule: find_slot.induct)
  case (1 mem flen q0)
  show ?case
  proof (cases "flen < q0 + sizeof_my_xid")
    case True
    with "1.prems" show ?thesis by (subst (asm) find_slot.simps) simp
  next
    case False
    show ?thesis
    proof (cases "mem q0 = 0")
      case True
      with False "1.prems" have "q = q0" by (subst (asm) find_slot.simps) simp
      with False True show ?thesis by simp
    next
      case nz: False
      with False "1.prems" have "find_slot mem flen (q0 + sizeof_my_xid) = Some q"
        by (subst (asm) find_slot.simps) simp
      from "1.IH" [OF False nz this] show ?thesis by simp
    qed
  qed
qed

lemma int_of_cookie:
  assumes "q < 2 ^ 31"
  shows "sint (ucast (of_nat q :: 64 word) :: 32 word) = int q"
proof -
  have "q < 2 ^ 64" using assms by (rule less_trans) simp
  then have u: "uint (of_nat q :: 64 word) = int q"
    by (simp add: unsigned_of_nat take_bit_nat_eq_self)
  have "sint (ucast (of_nat q :: 64 word) :: 32 word)
          = signed_take_bit 31 (uint (of_nat q :: 64 word))"
    by (simp add: signed_ucast_eq)
  also have "\<dots> = signed_take_bit 31 (int q)" unfolding u by (rule refl)
  also have "\<dots> = int q"
  proof (rule signed_take_bit_int_eq_self)
    show "- (2 ^ 31) \<le> int q" by simp
    have "int q < int (2 ^ 31)" using assms by (simp only: of_nat_less_iff)
    then show "int q < 2 ^ 31" by simp
  qed
  finally show ?thesis .
qed

text \<open>What the body of \<open>log_xid\<close> does once the page has a pointer: when \<open>p->ptr\<close>
  points behind the start of a mapping of at most \<open>2 ^ 31\<close> bytes and the call returns
  (the search finds a slot, and \<open>sync()\<close> finds an active page to signal), it returns 0
  exactly when the sync failed, and otherwise the offset of the slot, which was free and
  now holds the XID.\<close>

lemma log_xid_mmap_return:
  assumes p: "page_ptr p = Some q0" and pos: "0 < q0"
    and r: "log_xid_mmap env flen mem p xid = Inr (r, p', mem')"
    and fl: "flen \<le> 2 ^ 31"
  shows "(r = 0) = (if somebody_syncing env \<and> state_after_wait env \<noteq> DIRTY
                     then state_after_wait env = ERROR else msync_fails env) \<and>
         (r \<noteq> 0 \<longrightarrow> mem' (nat r) = xid \<and> mem (nat r) = 0 \<and> q0 \<le> nat r)"
proof -
  from p r obtain q where q: "find_slot mem flen q0 = Some q"
    by (cases "find_slot mem flen q0") (simp_all add: log_xid_mmap_def)
  from find_slot_Some [OF q] have ge: "q0 \<le> q" and lt: "q < flen"
    by (simp_all add: sizeof_my_xid_def)
  from find_slot_Some [OF q] have z: "mem q = 0" by simp
  have c: "sint (ucast (of_nat q :: 64 word) :: 32 word) = int q"
    using lt fl by (intro int_of_cookie) simp
  have nz: "int q \<noteq> 0" using ge pos by simp
  show ?thesis
    using r p q c nz z ge
    by (auto simp add: log_xid_mmap_def Let_def split: if_splits)
qed

text \<open>C10. A call of \<open>TC_LOG_MMAP::log_xid\<close> is to return 0 exactly when the sync failed
  and otherwise the byte offset of the slot it claimed, which is never 0.  On the pages that
  \<open>TC_LOG_MMAP::open\<close> builds the first call returns nothing: \<open>open\<close> leaves \<open>ptr\<close> of
  every page the null pointer, and the search for a free slot, \<open>while (*p->ptr)\<close>, reads
  through it.  (The start it computes for the first page, offset 28680, also lies behind the
  end of the 24576 bytes of the file.)\<close>

theorem log_xid_mmap_after_open_null_pointer:
  "page_ptr (sample_mmap_pages ! 0) = None \<and>
   page_start (sample_mmap_pages ! 0) = 28680 \<and>
   log_xid_mmap sample_sync_env (6 * 4096) sample_mmap_mem (sample_mmap_pages ! 0) 1
     = Inl Null_pointer"
proof -
  have a: "page_ptr (sample_mmap_pages ! 0) = None"
    and b: "page_start (sample_mmap_pages ! 0) = 28680"
    by (simp_all add: sample_mmap_pages_def open_pages_def open_page_def
          TC_LOG_HEADER_SIZE_def sizeof_my_xid_def)
  from a b show ?thesis by (simp add: log_xid_mmap_def)
qed

end
